theory Spec2Isabelle
  imports Main "HOL-Library.Multiset"
begin

section \<open>Data model (src/entities)\<close>

text \<open>
  The entities are TypeORM classes; each becomes a record holding the columns the
  route handlers read or write. Columns that only carry bookkeeping (\<open>createdAt\<close>,
  \<open>updatedAt\<close>, \<open>password\<close>, \<open>refreshToken\<close>, \<open>email\<close>) are left out: no handler
  modelled here branches on them.

  A \<open>uuid\<close> column holds a 128-bit value, here a natural number. A request carries an
  id as a string; the database parses it when the string is bound to a \<open>uuid\<close> column
  and raises an error for a string that is not a uuid (see \<open>parseUuid\<close> below).
\<close>

type_synonym uuid = nat

text \<open>
  A JavaScript \<open>Date\<close> is either a time value in milliseconds since the epoch or the
  Invalid Date that \<open>new Date(s)\<close> returns for a string it cannot parse.
\<close>

datatype jsdate = InvalidDate | Date int

datatype UserRole = ADMIN | USER

record user =
  u_id :: uuid
  u_role :: UserRole
  u_adminId :: "uuid option"

record event =
  e_eventId :: uuid
  e_eventName :: string
  e_county :: string
  e_constituency :: "string option"
  e_ward :: "string option"
  e_createdById :: uuid

record participant =
  p_id :: uuid
  p_idNumber :: string
  p_name :: string
  p_dateOfBirth :: jsdate
  p_sex :: string
  p_county :: "string option"
  p_constituency :: "string option"
  p_ward :: "string option"
  p_pollingCenter :: "string option"
  p_eventId :: uuid

text \<open>
  \<open>checkInDate\<close> and \<open>checkedInAt\<close> always come from \<open>new Date()\<close>, which is never
  invalid, so they are kept as the time value itself.
\<close>

record checkInLog =
  l_id :: uuid
  l_participantId :: uuid
  l_eventId :: uuid
  l_checkedInById :: uuid
  l_checkInDate :: int
  l_checkedInAt :: int

section \<open>Access control (routes/participants.ts, lines 14-23)\<close>

definition checkEventAccess :: "event \<Rightarrow> user \<Rightarrow> bool" where
  "checkEventAccess ev usr =
     (if u_role usr = ADMIN then e_createdById ev = u_id usr
      else u_adminId usr \<noteq> None \<and> Some (e_createdById ev) = u_adminId usr)"

text \<open>
  The access rule as the specification words it, for comparison with the code:
  an Owner is permitted iff the event's owner is the account itself; a Delegate is
  permitted iff it has an owner reference and the event's owner is that owner.
\<close>

fun canAccess_spec :: "uuid \<Rightarrow> UserRole \<Rightarrow> uuid \<Rightarrow> uuid option \<Rightarrow> bool" where
  "canAccess_spec owner ADMIN account_id owner_ref = (owner = account_id)"
| "canAccess_spec owner USER account_id None = False"
| "canAccess_spec owner USER account_id (Some own) = (owner = own)"

section \<open>Request values and platform\<close>

text \<open>
  A JSON body field is absent (\<open>undefined\<close> or \<open>null\<close>, here \<open>None\<close>) or a string.
  \<open>falsy\<close> is JavaScript's \<open>!x\<close> on such a value (absent or the empty string) and
  \<open>orNull\<close> is \<open>x || null\<close>.
\<close>

definition str :: "string option \<Rightarrow> string" where
  "str x = (case x of None \<Rightarrow> [] | Some v \<Rightarrow> v)"

definition falsy :: "string option \<Rightarrow> bool" where
  "falsy x = (str x = [])"

definition orNull :: "string option \<Rightarrow> string option" where
  "orNull x = (if falsy x then None else x)"

record checkin_body =
  b_eventId :: "string option"
  b_idNumber :: "string option"
  b_name :: "string option"
  b_dateOfBirth :: "string option"
  b_sex :: "string option"
  b_county :: "string option"
  b_constituency :: "string option"
  b_ward :: "string option"
  b_pollingCenter :: "string option"

record search_body =
  sb_eventId :: "string option"
  sb_idNumber :: "string option"

text \<open>
  Three things the handlers rely on are decided outside the repository and are taken as
  parameters: how \<open>new Date(s)\<close> parses a string, whether the database driver refuses
  to write an Invalid Date into a \<open>date\<close> column, and which strings the database
  accepts as a uuid (and which value each denotes).
\<close>

record platform =
  newDate :: "string \<Rightarrow> jsdate"
  rejectsInvalidDate :: bool
  parseUuid :: "string \<Rightarrow> uuid option"

text \<open>
  \<open>today.setHours(0, 0, 0, 0)\<close>: midnight of the day of a time value (the local time
  zone is taken to be UTC, a day to be 86400000 ms).
\<close>

definition setHours0 :: "int \<Rightarrow> int" where
  "setHours0 t = t - t mod 86400000"

datatype reply = Message string | CheckedIn checkInLog participant | Created event

type_synonym response = "nat \<times> reply"

section \<open>The persistent store\<close>

text \<open>
  Each table is the list of its rows in insertion order; \<open>findOne\<close> returns the first
  row that matches. \<open>nextId\<close> stands for the database's uuid generator
  (\<open>PrimaryGeneratedColumn('uuid')\<close>): every insert draws a value not drawn before.
\<close>

record store =
  events :: "event list"
  participants :: "participant list"
  checkInLogs :: "checkInLog list"
  nextId :: nat

definition empty_store :: store where
  "empty_store = \<lparr>events = [], participants = [], checkInLogs = [], nextId = 0\<rparr>"

text \<open>
  The errors the storage layer raises: a duplicate under a unique index, a foreign key
  still referenced, an Invalid Date for a \<open>date\<close> column, a string that is not a uuid
  bound to a \<open>uuid\<close> column, and a string longer than its \<open>varchar(n)\<close> column.
\<close>

datatype db_error =
  UniqueViolation | ForeignKeyViolation | InvalidDateValue | InvalidUuid | ValueTooLong

text \<open>A string bound to a \<open>uuid\<close> column, as in \<open>where: { eventId }\<close>.\<close>

definition bindUuid :: "platform \<Rightarrow> string \<Rightarrow> db_error + uuid" where
  "bindUuid pf x = (case parseUuid pf x of None \<Rightarrow> Inl InvalidUuid | Some u \<Rightarrow> Inr u)"

text \<open>A nullable \<open>varchar(n)\<close> column takes null or a string of at most n characters.\<close>

definition fits :: "nat \<Rightarrow> string option \<Rightarrow> bool" where
  "fits n x = (case x of None \<Rightarrow> True | Some v \<Rightarrow> length v \<le> n)"

definition findOneEvent :: "platform \<Rightarrow> store \<Rightarrow> string \<Rightarrow> db_error + event option" where
  "findOneEvent pf s eventId =
     (case bindUuid pf eventId of
        Inl err \<Rightarrow> Inl err
      | Inr eid \<Rightarrow> Inr (find (\<lambda>e. e_eventId e = eid) (events s)))"

definition findOneParticipant ::
  "platform \<Rightarrow> store \<Rightarrow> string \<Rightarrow> string \<Rightarrow> db_error + participant option" where
  "findOneParticipant pf s eventId idNumber =
     (case bindUuid pf eventId of
        Inl err \<Rightarrow> Inl err
      | Inr eid \<Rightarrow>
          Inr (find (\<lambda>p. p_eventId p = eid \<and> p_idNumber p = idNumber) (participants s)))"

text \<open>
  The columns of the unique index declared on \<open>check_in_logs\<close>
  (entities/CheckInLog.ts, line 15).
\<close>

definition log_key :: "checkInLog \<Rightarrow> uuid \<times> uuid \<times> int" where
  "log_key l = (l_participantId l, l_eventId l, l_checkInDate l)"

definition findOneCheckInLog ::
  "platform \<Rightarrow> store \<Rightarrow> uuid \<Rightarrow> string \<Rightarrow> int \<Rightarrow> db_error + checkInLog option" where
  "findOneCheckInLog pf s participantId eventId checkInDate =
     (case bindUuid pf eventId of
        Inl err \<Rightarrow> Inl err
      | Inr eid \<Rightarrow>
          Inr (find (\<lambda>l. l_participantId l = participantId \<and> l_eventId l = eid
                         \<and> l_checkInDate l = checkInDate) (checkInLogs s)))"

text \<open>
  INSERT into \<open>events\<close> (entities/Event.ts): \<open>eventName\<close>, \<open>county\<close>,
  \<open>constituency\<close> and \<open>ward\<close> are \<open>varchar(255)\<close>.
\<close>

definition insertEvent :: "store \<Rightarrow> event \<Rightarrow> db_error + (event \<times> store)" where
  "insertEvent s row =
     (if \<not> (length (e_eventName row) \<le> 255 \<and> length (e_county row) \<le> 255
             \<and> fits 255 (e_constituency row) \<and> fits 255 (e_ward row))
      then Inl ValueTooLong
      else let ev = row\<lparr>e_eventId := nextId s\<rparr>
           in Inr (ev, s\<lparr>events := events s @ [ev], nextId := Suc (nextId s)\<rparr>))"

text \<open>
  \<open>save\<close> of a new participant is an INSERT, \<open>save\<close> of a loaded one an UPDATE of the
  demographic columns of the row with its primary key. The database refuses a value
  that does not fit its column: \<open>idNumber\<close> is \<open>varchar(50)\<close>, \<open>sex\<close> is
  \<open>varchar(20)\<close>, \<open>name\<close>, \<open>county\<close>, \<open>constituency\<close>, \<open>ward\<close> and
  \<open>pollingCenter\<close> are \<open>varchar(255)\<close>, \<open>dateOfBirth\<close> is a \<open>date\<close>. Lengths are
  counted in characters of the model's strings. Foreign keys of inserted rows are not
  checked by the model: the handlers insert only rows whose event and participant they
  have just read.
\<close>

definition demographicsFit :: "platform \<Rightarrow> participant \<Rightarrow> db_error option" where
  "demographicsFit pf row =
     (if rejectsInvalidDate pf \<and> p_dateOfBirth row = InvalidDate then Some InvalidDateValue
      else if \<not> (length (p_name row) \<le> 255 \<and> length (p_sex row) \<le> 20
                  \<and> fits 255 (p_county row) \<and> fits 255 (p_constituency row)
                  \<and> fits 255 (p_ward row) \<and> fits 255 (p_pollingCenter row))
      then Some ValueTooLong
      else None)"

definition insertParticipant ::
  "platform \<Rightarrow> store \<Rightarrow> participant \<Rightarrow> db_error + (participant \<times> store)" where
  "insertParticipant pf s row =
     (case demographicsFit pf row of
        Some err \<Rightarrow> Inl err
      | None \<Rightarrow>
          if \<not> length (p_idNumber row) \<le> 50 then Inl ValueTooLong
          else let p = row\<lparr>p_id := nextId s\<rparr>
               in Inr (p, s\<lparr>participants := participants s @ [p], nextId := Suc (nextId s)\<rparr>))"

definition updateParticipant ::
  "platform \<Rightarrow> store \<Rightarrow> participant \<Rightarrow> db_error + (participant \<times> store)" where
  "updateParticipant pf s p =
     (case demographicsFit pf p of
        Some err \<Rightarrow> Inl err
      | None \<Rightarrow>
          Inr (p, s\<lparr>participants :=
             map (\<lambda>q. if p_id q = p_id p
                       then q\<lparr>p_name := p_name p, p_dateOfBirth := p_dateOfBirth p,
                              p_sex := p_sex p, p_county := p_county p,
                              p_constituency := p_constituency p, p_ward := p_ward p,
                              p_pollingCenter := p_pollingCenter p\<rparr>
                       else q) (participants s)\<rparr>))"

text \<open>
  INSERT into \<open>check_in_logs\<close>: the unique index on (participantId, eventId,
  checkInDate) makes the database refuse a row whose triple is already present.
\<close>

definition insertCheckInLog :: "store \<Rightarrow> checkInLog \<Rightarrow> db_error + (checkInLog \<times> store)" where
  "insertCheckInLog s row =
     (if log_key row \<in> set (map log_key (checkInLogs s)) then Inl UniqueViolation
      else let l = row\<lparr>l_id := nextId s\<rparr>
           in Inr (l, s\<lparr>checkInLogs := checkInLogs s @ [l], nextId := Suc (nextId s)\<rparr>))"

text \<open>
  DELETE of an event row. \<open>CheckInLog.event\<close> is declared with
  \<open>onDelete: 'CASCADE'\<close>, so the logs of the event go with it. \<open>Participant.event\<close>
  declares no \<open>onDelete\<close>, so its foreign key keeps the default NO ACTION: the
  database refuses the delete while a participant row still references the event.
\<close>

definition removeEvent :: "store \<Rightarrow> event \<Rightarrow> db_error + store" where
  "removeEvent s ev =
     (if e_eventId ev \<in> set (map p_eventId (participants s)) then Inl ForeignKeyViolation
      else Inr (s\<lparr>events := filter (\<lambda>e. e_eventId e \<noteq> e_eventId ev) (events s),
                  checkInLogs := filter (\<lambda>l. l_eventId l \<noteq> e_eventId ev) (checkInLogs s)\<rparr>))"

section \<open>Check-in (routes/participants.ts, lines 116-248)\<close>

text \<open>
  Lines 169-193: the \<open>save\<close> of the participant, given what \<open>findOne\<close> returned. A new
  row takes the request's \<open>eventId\<close>, which the database binds to the \<open>uuid\<close> column.
\<close>

definition saveParticipant ::
  "platform \<Rightarrow> store \<Rightarrow> checkin_body \<Rightarrow> participant option
     \<Rightarrow> db_error + (participant \<times> store)" where
  "saveParticipant pf s b found =
     (case found of
        None \<Rightarrow>
          (case bindUuid pf (str (b_eventId b)) of
             Inl err \<Rightarrow> Inl err
           | Inr eid \<Rightarrow>
               insertParticipant pf s
                 \<lparr>p_id = 0, p_idNumber = str (b_idNumber b), p_name = str (b_name b),
                  p_dateOfBirth = newDate pf (str (b_dateOfBirth b)), p_sex = str (b_sex b),
                  p_county = orNull (b_county b), p_constituency = orNull (b_constituency b),
                  p_ward = orNull (b_ward b), p_pollingCenter = orNull (b_pollingCenter b),
                  p_eventId = eid\<rparr>)
      | Some p \<Rightarrow>
          updateParticipant pf s
            (p\<lparr>p_name := str (b_name b),
               p_dateOfBirth := newDate pf (str (b_dateOfBirth b)),
               p_sex := str (b_sex b), p_county := orNull (b_county b),
               p_constituency := orNull (b_constituency b), p_ward := orNull (b_ward b),
               p_pollingCenter := orNull (b_pollingCenter b)\<rparr>))"

text \<open>Lines 161-193, "Find or create participant".\<close>

definition findOrCreateParticipant ::
  "platform \<Rightarrow> store \<Rightarrow> checkin_body \<Rightarrow> db_error + (participant \<times> store)" where
  "findOrCreateParticipant pf s b =
     (case findOneParticipant pf s (str (b_eventId b)) (str (b_idNumber b)) of
        Inl err \<Rightarrow> Inl err
      | Inr found \<Rightarrow> saveParticipant pf s b found)"

text \<open>
  Lines 214-223: the \<open>save\<close> of the new check-in log, whose \<open>eventId\<close> is again the
  request's string.
\<close>

definition saveCheckInLog ::
  "platform \<Rightarrow> store \<Rightarrow> uuid \<Rightarrow> string \<Rightarrow> uuid \<Rightarrow> int \<Rightarrow> int
     \<Rightarrow> db_error + (checkInLog \<times> store)" where
  "saveCheckInLog pf s participantId eventId checkedInById checkInDate checkedInAt =
     (case bindUuid pf eventId of
        Inl err \<Rightarrow> Inl err
      | Inr eid \<Rightarrow>
          insertCheckInLog s
            \<lparr>l_id = 0, l_participantId = participantId, l_eventId = eid,
             l_checkedInById = checkedInById, l_checkInDate = checkInDate,
             l_checkedInAt = checkedInAt\<rparr>)"

text \<open>
  The handler run without interruption. \<open>now\<close> is what \<open>new Date()\<close> returns, at
  line 196 and again at line 220 (only \<open>checkedInAt\<close> depends on the second reading).
  The \<open>catch\<close> block (lines 240-246) turns every exception of the storage layer into
  the 500 response; what was saved before the exception stays saved.
\<close>

definition checkin ::
  "platform \<Rightarrow> int \<Rightarrow> store \<Rightarrow> user \<Rightarrow> checkin_body \<Rightarrow> response \<times> store" where
  "checkin pf now s usr b =
     (if falsy (b_eventId b) \<or> falsy (b_idNumber b) \<or> falsy (b_name b)
         \<or> falsy (b_dateOfBirth b) \<or> falsy (b_sex b)
      then ((400, Message ''Event ID, ID number, name, date of birth, and sex are required''), s)
      else
        (case findOneEvent pf s (str (b_eventId b)) of
          Inl err \<Rightarrow> ((500, Message ''Internal server error''), s)
        | Inr None \<Rightarrow> ((404, Message ''Event not found''), s)
        | Inr (Some ev) \<Rightarrow>
            if \<not> checkEventAccess ev usr
            then ((403, Message ''Access denied to this event''), s)
            else
              (case findOrCreateParticipant pf s b of
                Inl err \<Rightarrow> ((500, Message ''Internal server error''), s)
              | Inr (p, s1) \<Rightarrow>
                  (let today = setHours0 now in
                  (case findOneCheckInLog pf s1 (p_id p) (str (b_eventId b)) today of
                    Inl err \<Rightarrow> ((500, Message ''Internal server error''), s1)
                  | Inr (Some existingCheckIn) \<Rightarrow>
                      ((400, Message ''Voter already checked in today''), s1)
                  | Inr None \<Rightarrow>
                      (case saveCheckInLog pf s1 (p_id p) (str (b_eventId b)) (u_id usr)
                              today now of
                        Inl err \<Rightarrow> ((500, Message ''Internal server error''), s1)
                      | Inr (l, s2) \<Rightarrow> ((201, CheckedIn l p), s2)))))))"

text \<open>The named outcomes of the specification's error taxonomy, as the handler sends them.\<close>

definition ValidationError :: response where
  "ValidationError =
     (400, Message ''Event ID, ID number, name, date of birth, and sex are required'')"

definition NotFound :: response where
  "NotFound = (404, Message ''Event not found'')"

definition Forbidden :: response where
  "Forbidden = (403, Message ''Access denied to this event'')"

definition AlreadyCheckedIn :: response where
  "AlreadyCheckedIn = (400, Message ''Voter already checked in today'')"

definition InternalError :: response where
  "InternalError = (500, Message ''Internal server error'')"

section \<open>Check-in as a sequence of storage operations\<close>

text \<open>
  Every \<open>await\<close> of the handler is a round trip to the store, and other requests may
  run between two of them. A request in flight is therefore a task that remembers how
  far it has come; one step runs the code up to and including the next storage
  operation:
  \<^item> \<open>Received\<close>: lines 120-156, validation, \<open>findOne\<close> of the event, access check;
  \<^item> \<open>Authorized\<close>: lines 161-167, \<open>findOne\<close> of the participant;
  \<^item> \<open>Looked_up\<close>: lines 169-193, \<open>save\<close> of the participant;
  \<^item> \<open>Resolved\<close>: lines 195-212, \<open>findOne\<close> of today's check-in (the pre-check);
  \<^item> \<open>Prechecked\<close>: lines 214-239, \<open>save\<close> of the check-in log and the 201 response;
  \<^item> \<open>Responded\<close>: the response has been sent.
\<close>

datatype checkin_task =
    Received user checkin_body
  | Authorized user checkin_body
  | Looked_up user checkin_body "participant option"
  | Resolved user checkin_body participant
  | Prechecked user checkin_body participant int
  | Responded response

fun checkin_step ::
  "platform \<Rightarrow> int \<Rightarrow> store \<Rightarrow> checkin_task \<Rightarrow> checkin_task \<times> store" where
  "checkin_step pf now s (Received usr b) =
     (if falsy (b_eventId b) \<or> falsy (b_idNumber b) \<or> falsy (b_name b)
         \<or> falsy (b_dateOfBirth b) \<or> falsy (b_sex b)
      then (Responded
              (400, Message ''Event ID, ID number, name, date of birth, and sex are required''), s)
      else
        (case findOneEvent pf s (str (b_eventId b)) of
          Inl err \<Rightarrow> (Responded (500, Message ''Internal server error''), s)
        | Inr None \<Rightarrow> (Responded (404, Message ''Event not found''), s)
        | Inr (Some ev) \<Rightarrow>
            if \<not> checkEventAccess ev usr
            then (Responded (403, Message ''Access denied to this event''), s)
            else (Authorized usr b, s)))"
| "checkin_step pf now s (Authorized usr b) =
     (case findOneParticipant pf s (str (b_eventId b)) (str (b_idNumber b)) of
        Inl err \<Rightarrow> (Responded (500, Message ''Internal server error''), s)
      | Inr found \<Rightarrow> (Looked_up usr b found, s))"
| "checkin_step pf now s (Looked_up usr b found) =
     (case saveParticipant pf s b found of
        Inl err \<Rightarrow> (Responded (500, Message ''Internal server error''), s)
      | Inr (p, s1) \<Rightarrow> (Resolved usr b p, s1))"
| "checkin_step pf now s (Resolved usr b p) =
     (let today = setHours0 now in
      (case findOneCheckInLog pf s (p_id p) (str (b_eventId b)) today of
         Inl err \<Rightarrow> (Responded (500, Message ''Internal server error''), s)
       | Inr (Some existingCheckIn) \<Rightarrow>
           (Responded (400, Message ''Voter already checked in today''), s)
       | Inr None \<Rightarrow> (Prechecked usr b p today, s)))"
| "checkin_step pf now s (Prechecked usr b p today) =
     (case saveCheckInLog pf s (p_id p) (str (b_eventId b)) (u_id usr) today now of
        Inl err \<Rightarrow> (Responded (500, Message ''Internal server error''), s)
      | Inr (l, s2) \<Rightarrow> (Responded (201, CheckedIn l p), s2))"
| "checkin_step pf now s (Responded r) = (Responded r, s)"

definition step_on :: "platform \<Rightarrow> int \<Rightarrow> checkin_task \<times> store \<Rightarrow> checkin_task \<times> store" where
  "step_on pf now c = checkin_step pf now (snd c) (fst c)"

text \<open>
  The (participant, event, day) triple a task is about to act on, once it has one: at
  the pre-check the day is fixed by the clock, afterwards the task carries it. A task
  whose \<open>eventId\<close> is not a uuid acts on no triple.
\<close>

fun attempt :: "platform \<Rightarrow> int \<Rightarrow> checkin_task \<Rightarrow> (uuid \<times> uuid \<times> int) option" where
  "attempt pf now (Resolved usr b p) =
     map_option (\<lambda>eid. (p_id p, eid, setHours0 now)) (parseUuid pf (str (b_eventId b)))"
| "attempt pf now (Prechecked usr b p today) =
     map_option (\<lambda>eid. (p_id p, eid, today)) (parseUuid pf (str (b_eventId b)))"
| "attempt pf now t = None"

text \<open>
  What a step lets the caller observe: when the step ends an attempt on a triple by
  sending a response, that triple and the response.
\<close>

definition completes ::
  "platform \<Rightarrow> int \<Rightarrow> store \<Rightarrow> checkin_task \<Rightarrow> ((uuid \<times> uuid \<times> int) \<times> response) list" where
  "completes pf now s t =
     (case (attempt pf now t, fst (checkin_step pf now s t)) of
        (Some k, Responded r) \<Rightarrow> [(k, r)]
      | other \<Rightarrow> [])"

text \<open>
  Concurrent requests: a store shared by a list of tasks. A schedule names, step by
  step, which task runs next and what the clock shows; any interleaving of the requests
  is the run of some schedule. \<open>exec\<close> returns the completed attempts in the order of
  their responses, and the final store and tasks.
\<close>

type_synonym system = "store \<times> checkin_task list"

fun exec ::
  "platform \<Rightarrow> (nat \<times> int) list \<Rightarrow> system
     \<Rightarrow> ((uuid \<times> uuid \<times> int) \<times> response) list \<times> system" where
  "exec pf [] (s, ts) = ([], (s, ts))"
| "exec pf ((i, now) # sched) (s, ts) =
     (if i < length ts
      then (let (t', s') = checkin_step pf now s (ts ! i);
                (tr, final) = exec pf sched (s', ts[i := t'])
            in (completes pf now s (ts ! i) @ tr, final))
      else exec pf sched (s, ts))"

definition responses_for ::
  "uuid \<times> uuid \<times> int \<Rightarrow> ((uuid \<times> uuid \<times> int) \<times> response) list \<Rightarrow> response list" where
  "responses_for k tr = map snd (filter (\<lambda>e. fst e = k) tr)"

section \<open>Events (routes/events.ts)\<close>

record event_body =
  eb_eventName :: "string option"
  eb_county :: "string option"
  eb_constituency :: "string option"
  eb_ward :: "string option"

text \<open>
  Modelled from the spec: \<open>requireAdmin\<close> is imported from middleware/auth, which is
  not among the sources. The specification marks the routes that use it "Owner only" and
  answers 403 otherwise: an ADMIN account passes, any other account is refused with
  status 403 (the text of the refusal is not specified; only its status is used).
\<close>

definition requireAdmin :: "user \<Rightarrow> response option" where
  "requireAdmin usr =
     (if u_role usr = ADMIN then None else Some (403, Message ''Admin access required''))"

text \<open>POST /events, lines 9-57.\<close>

definition createEvent :: "store \<Rightarrow> user \<Rightarrow> event_body \<Rightarrow> response \<times> store" where
  "createEvent s usr b =
     (case requireAdmin usr of
        Some refusal \<Rightarrow> (refusal, s)
      | None \<Rightarrow>
          if falsy (eb_eventName b) \<or> falsy (eb_county b)
          then ((400, Message ''Event name and county are required''), s)
          else
            (case insertEvent s
                    \<lparr>e_eventId = 0, e_eventName = str (eb_eventName b),
                     e_county = str (eb_county b),
                     e_constituency = orNull (eb_constituency b),
                     e_ward = orNull (eb_ward b), e_createdById = u_id usr\<rparr> of
               Inl err \<Rightarrow> ((500, Message ''Internal server error''), s)
             | Inr (ev, s') \<Rightarrow> ((201, Created ev), s')))"

text \<open>DELETE /events/:eventId, lines 327-370.\<close>

definition deleteEvent :: "platform \<Rightarrow> store \<Rightarrow> user \<Rightarrow> string \<Rightarrow> response \<times> store" where
  "deleteEvent pf s usr eventId =
     (case requireAdmin usr of
        Some refusal \<Rightarrow> (refusal, s)
      | None \<Rightarrow>
          (case findOneEvent pf s eventId of
             Inl err \<Rightarrow> ((500, Message ''Internal server error''), s)
           | Inr None \<Rightarrow> ((404, Message ''Event not found''), s)
           | Inr (Some ev) \<Rightarrow>
               if e_createdById ev \<noteq> u_id usr
               then ((403, Message ''Access denied. You can only delete events you created.''), s)
               else
                 (case removeEvent s ev of
                    Inl err \<Rightarrow> ((500, Message ''Internal server error''), s)
                  | Inr s' \<Rightarrow> ((200, Message ''Event deleted successfully''), s'))))"

section \<open>Voter lookup (routes/participants.ts, lines 26-113)\<close>

record filters =
  f_county :: string
  f_constituency :: "string option"
  f_ward :: "string option"

text \<open>
  \<open>lookupVoter\<close> is the external gateway (services/voterLookup): it returns the
  voter's record, returns \<open>null\<close>, or throws. It is a parameter of the handler.
\<close>

datatype 'v lookup = Match 'v | NoMatch | Failure

datatype 'v search_reply = Notice string | ParticipantFound 'v

text \<open>Lines 65-79: the filters object built from the event.\<close>

definition lookupFilters :: "event \<Rightarrow> filters" where
  "lookupFilters ev =
     (let filters0 = \<lparr>f_county = e_county ev, f_constituency = None, f_ward = None\<rparr>;
          filters1 = (if \<not> falsy (e_constituency ev)
                      then filters0\<lparr>f_constituency := e_constituency ev\<rparr> else filters0);
          filters2 = (if \<not> falsy (e_ward ev)
                      then filters1\<lparr>f_ward := e_ward ev\<rparr> else filters1)
      in filters2)"

text \<open>
  The handler returns its response together with the calls it made to the gateway
  (identity number and filters), in order.
\<close>

definition search ::
  "platform \<Rightarrow> (string \<Rightarrow> filters \<Rightarrow> 'v lookup) \<Rightarrow> store \<Rightarrow> user \<Rightarrow> search_body
     \<Rightarrow> (nat \<times> 'v search_reply) \<times> (string \<times> filters) list" where
  "search pf lookupVoter s usr b =
     (if falsy (sb_eventId b) \<or> falsy (sb_idNumber b)
      then ((400, Notice ''Event ID and ID number are required''), [])
      else
        (case findOneEvent pf s (str (sb_eventId b)) of
           Inl err \<Rightarrow> ((500, Notice ''Internal server error''), [])
         | Inr None \<Rightarrow> ((404, Notice ''Event not found''), [])
         | Inr (Some ev) \<Rightarrow>
             if \<not> checkEventAccess ev usr
             then ((403, Notice ''Access denied to this event''), [])
             else if e_county ev = []
             then ((400, Notice ''Event must have a county to perform voter lookup''), [])
             else
               (let call = (str (sb_idNumber b), lookupFilters ev) in
                (case lookupVoter (fst call) (snd call) of
                   NoMatch \<Rightarrow> ((404, Notice ''Participant not found''), [call])
                 | Match voterInfo \<Rightarrow> ((200, ParticipantFound voterInfo), [call])
                 | Failure \<Rightarrow> ((500, Notice ''Error looking up voter information''), [call])))))"

section \<open>Reachable stores\<close>

text \<open>
  The stores that can arise from the empty database: by the event routes, by any step
  of any check-in request in any interleaving, and by any direct use of the storage
  operations of the two check-in tables, whatever the caller and the row.
\<close>

inductive reachable :: "platform \<Rightarrow> store \<Rightarrow> bool" for pf :: platform where
  reach_empty: "reachable pf empty_store"
| reach_createEvent: "reachable pf s \<Longrightarrow> reachable pf (snd (createEvent s usr eb))"
| reach_deleteEvent: "reachable pf s \<Longrightarrow> reachable pf (snd (deleteEvent pf s usr eventId))"
| reach_checkin_step: "reachable pf s \<Longrightarrow> reachable pf (snd (checkin_step pf now s t))"
| reach_insertParticipant:
    "reachable pf s \<Longrightarrow> insertParticipant pf s prow = Inr (p, s') \<Longrightarrow> reachable pf s'"
| reach_updateParticipant:
    "reachable pf s \<Longrightarrow> updateParticipant pf s prow = Inr (p, s') \<Longrightarrow> reachable pf s'"
| reach_insertCheckInLog:
    "reachable pf s \<Longrightarrow> insertCheckInLog s lrow = Inr (l, s') \<Longrightarrow> reachable pf s'"

section \<open>Requests served one after another\<close>

text \<open>
  The traffic that may pass between two check-ins of interest: any list of requests to
  the three modelled routes that change the store, each served to completion before the
  next.
\<close>

datatype request =
    CheckIn int user checkin_body
  | CreateEvent user event_body
  | DeleteEvent user string

fun serve :: "platform \<Rightarrow> store \<Rightarrow> request \<Rightarrow> store" where
  "serve pf s (CheckIn now usr b) = snd (checkin pf now s usr b)"
| "serve pf s (CreateEvent usr eb) = snd (createEvent s usr eb)"
| "serve pf s (DeleteEvent usr eventId) = snd (deleteEvent pf s usr eventId)"

definition serve_all :: "platform \<Rightarrow> request list \<Rightarrow> store \<Rightarrow> store" where
  "serve_all pf reqs s = foldl (serve pf) s reqs"

section \<open>Auxiliary notions and sample data\<close>

definition log_keys :: "store \<Rightarrow> (uuid \<times> uuid \<times> int) list" where
  "log_keys s = map log_key (checkInLogs s)"

text \<open>The participant row that \<open>findOne\<close> returns for an event and an identity number.\<close>

definition participantFor :: "store \<Rightarrow> uuid \<Rightarrow> string \<Rightarrow> participant option" where
  "participantFor s eid idNumber =
     find (\<lambda>p. p_eventId p = eid \<and> p_idNumber p = idNumber) (participants s)"

text \<open>
  A check-in has been established in a store: the event is there, the identity number
  resolves to the participant with the given id, and the triple is recorded.
\<close>

definition established ::
  "store \<Rightarrow> event \<Rightarrow> string \<Rightarrow> uuid \<Rightarrow> uuid \<times> uuid \<times> int \<Rightarrow> bool" where
  "established s ev idNumber pid k =
     (find (\<lambda>e. e_eventId e = e_eventId ev) (events s) = Some ev
      \<and> (\<exists>q. participantFor s (e_eventId ev) idNumber = Some q \<and> p_id q = pid)
      \<and> k \<in> set (log_keys s))"

text \<open>The request passes the check of line 133.\<close>

definition hasRequiredFields :: "checkin_body \<Rightarrow> bool" where
  "hasRequiredFields b =
     (\<not> (falsy (b_eventId b) \<or> falsy (b_idNumber b) \<or> falsy (b_name b)
          \<or> falsy (b_dateOfBirth b) \<or> falsy (b_sex b)))"

text \<open>
  The demographics of the request can be stored: the date of birth parses and every
  string fits its column.
\<close>

definition storable :: "platform \<Rightarrow> checkin_body \<Rightarrow> bool" where
  "storable pf b =
     (newDate pf (str (b_dateOfBirth b)) \<noteq> InvalidDate
      \<and> length (str (b_idNumber b)) \<le> 50 \<and> length (str (b_name b)) \<le> 255
      \<and> length (str (b_sex b)) \<le> 20 \<and> fits 255 (b_county b)
      \<and> fits 255 (b_constituency b) \<and> fits 255 (b_ward b)
      \<and> fits 255 (b_pollingCenter b))"

text \<open>
  A platform whose date parser knows one date, whose uuid parser knows two uuids, and
  whose database refuses an Invalid Date; and the same platform with a database that
  stores whatever date it is given.
\<close>

definition event0_id :: string where
  "event0_id = ''00000000-0000-0000-0000-000000000000''"

definition unknown_id :: string where
  "unknown_id = ''00000000-0000-0000-0000-00000000ffff''"

definition sample_parseUuid :: "string \<Rightarrow> uuid option" where
  "sample_parseUuid x =
     (if x = ''00000000-0000-0000-0000-000000000000'' then Some 0
      else if x = ''00000000-0000-0000-0000-00000000ffff'' then Some 65535
      else None)"

definition strict_platform :: platform where
  "strict_platform =
     \<lparr>newDate = (\<lambda>d. if d = ''1990-01-01'' then Date 631152000000 else InvalidDate),
      rejectsInvalidDate = True, parseUuid = sample_parseUuid\<rparr>"

definition lenient_platform :: platform where
  "lenient_platform =
     \<lparr>newDate = (\<lambda>d. if d = ''1990-01-01'' then Date 631152000000 else InvalidDate),
      rejectsInvalidDate = False, parseUuid = sample_parseUuid\<rparr>"

definition owner1 :: user where
  "owner1 = \<lparr>u_id = 1001, u_role = ADMIN, u_adminId = None\<rparr>"

definition delegate1 :: user where
  "delegate1 = \<lparr>u_id = 1002, u_role = USER, u_adminId = Some 1001\<rparr>"

definition rally :: event_body where
  "rally = \<lparr>eb_eventName = Some ''Rally'', eb_county = Some ''R1'',
            eb_constituency = None, eb_ward = None\<rparr>"

definition ward_only :: event_body where
  "ward_only = \<lparr>eb_eventName = Some ''Rally'', eb_county = Some ''R'',
                eb_constituency = None, eb_ward = Some ''L''\<rparr>"

text \<open>The database after owner1 has created one event; its generated id is 0.\<close>

definition store1 :: store where
  "store1 = snd (createEvent empty_store owner1 rally)"

definition store_ward_only :: store where
  "store_ward_only = snd (createEvent empty_store owner1 ward_only)"

definition body123 :: checkin_body where
  "body123 = \<lparr>b_eventId = Some ''00000000-0000-0000-0000-000000000000'',
              b_idNumber = Some ''123'', b_name = Some ''Ann'',
              b_dateOfBirth = Some ''1990-01-01'', b_sex = Some ''F'', b_county = None,
              b_constituency = None, b_ward = None, b_pollingCenter = None\<rparr>"

definition body123_corrected :: checkin_body where
  "body123_corrected = body123\<lparr>b_name := Some ''Anne'', b_county := Some ''K''\<rparr>"


definition body456 :: checkin_body where
  "body456 = body123\<lparr>b_idNumber := Some ''456'', b_name := Some ''Ben'', b_sex := Some ''M''\<rparr>"

definition search123 :: search_body where
  "search123 = \<lparr>sb_eventId = Some ''00000000-0000-0000-0000-000000000000'',
                sb_idNumber = Some ''123''\<rparr>"

definition no_match :: "string \<Rightarrow> filters \<Rightarrow> unit lookup" where
  "no_match idNumber fs = NoMatch"

text \<open>One millisecond after midnight of day 0, one hour later, and the next day.\<close>

definition day0 :: int where "day0 = 1"
definition day0_later :: int where "day0_later = 3600001"
definition day1 :: int where "day1 = 86400001"

text \<open>
  The participant and the log row that the first check-in of \<open>body123\<close> on day 0
  creates in \<open>store1\<close>, and the store it leaves.
\<close>

definition ann :: participant where
  "ann = \<lparr>p_id = 1, p_idNumber = ''123'', p_name = ''Ann'',
          p_dateOfBirth = Date 631152000000, p_sex = ''F'', p_county = None,
          p_constituency = None, p_ward = None, p_pollingCenter = None, p_eventId = 0\<rparr>"

definition log_day0 :: checkInLog where
  "log_day0 = \<lparr>l_id = 2, l_participantId = 1, l_eventId = 0,
               l_checkedInById = 1001, l_checkInDate = 0, l_checkedInAt = 1\<rparr>"

definition store2 :: store where
  "store2 = store1\<lparr>participants := [ann], checkInLogs := [log_day0], nextId := 3\<rparr>"


text \<open>
  Two requests for the same person on the same day, by the owner and by a delegate.
  In \<open>race_prefix\<close> each runs up to and including its pre-check before either inserts,
  then the first request inserts; \<open>race\<close> lets the second request insert as well.
\<close>

definition two_requests :: system where
  "two_requests = (store1, [Received owner1 body123, Received delegate1 body123])"

definition race_prefix :: "(nat \<times> int) list" where
  "race_prefix = [(0, day0), (0, day0), (0, day0), (0, day0),
                  (1, day0), (1, day0), (1, day0), (1, day0), (0, day0)]"

definition race :: "(nat \<times> int) list" where
  "race = race_prefix @ [(1, day0)]"

text \<open>
  A schedule in which both requests look the participant up before either saves it.
\<close>

definition race_on_creation :: "(nat \<times> int) list" where
  "race_on_creation = [(0, day0), (0, day0), (1, day0), (1, day0), (0, day0), (1, day0),
                       (0, day0), (1, day0), (0, day0), (1, day0)]"

text \<open>
  Traffic between the check-ins of interest: another person checks in on day 0, and
  again on day 1.
\<close>

definition other_day0 :: "request list" where
  "other_day0 = [CheckIn day0_later owner1 body456]"

definition other_day1 :: "request list" where
  "other_day1 = [CheckIn day0_later delegate1 body123_corrected, CheckIn day1 owner1 body456]"

text \<open>What the outcome of a set of attempts on one triple may look like.\<close>

definition losses_only :: "response list \<Rightarrow> bool" where
  "losses_only rs = (set rs \<subseteq> {AlreadyCheckedIn, InternalError})"

definition one_winner ::
  "uuid \<times> uuid \<times> int \<Rightarrow> store \<Rightarrow> response list \<Rightarrow> bool" where
  "one_winner k final rs =
     (rs = [] \<or> (\<exists>l p rest. rs = (201, CheckedIn l p) # rest \<and> log_key l = k
                    \<and> l \<in> set (checkInLogs final) \<and> losses_only rest))"

section \<open>Auxiliary lemmas\<close>

subsection \<open>Lists and the storage operations\<close>

lemma find_append_cases:
  "find P (xs @ ys) = (case find P xs of None \<Rightarrow> find P ys | Some x \<Rightarrow> Some x)"
  by (induction xs) auto

lemma find_map_stable:
  "(\<And>x. P (f x) = P x) \<Longrightarrow> find P (map f xs) = map_option f (find P xs)"
  by (induction xs) auto

lemma find_filter_stable:
  "(\<And>x. P x \<Longrightarrow> Q x) \<Longrightarrow> find P (filter Q xs) = find P xs"
  by (induction xs) auto

lemma find_Some_holds: "find P xs = Some x \<Longrightarrow> P x \<and> x \<in> set xs"
  by (induction xs) (auto split: if_splits)

lemma fits_orNull: "fits n x \<Longrightarrow> fits n (orNull x)"
  by (simp add: fits_def orNull_def)

lemma insertCheckInLog_Inr:
  "insertCheckInLog s row = Inr (l, s') \<Longrightarrow>
     log_key l = log_key row \<and> log_key row \<notin> set (log_keys s)
     \<and> checkInLogs s' = checkInLogs s @ [l]
     \<and> events s' = events s \<and> participants s' = participants s"
  by (auto simp: insertCheckInLog_def log_keys_def log_key_def Let_def split: if_splits)

lemma insertCheckInLog_Inl:
  "log_key row \<in> set (log_keys s) \<Longrightarrow> insertCheckInLog s row = Inl UniqueViolation"
  by (auto simp: insertCheckInLog_def log_keys_def Let_def)

lemma insertCheckInLog_fresh:
  "log_key row \<notin> set (log_keys s) \<Longrightarrow>
     insertCheckInLog s row =
       Inr (row\<lparr>l_id := nextId s\<rparr>,
            s\<lparr>checkInLogs := checkInLogs s @ [row\<lparr>l_id := nextId s\<rparr>],
              nextId := Suc (nextId s)\<rparr>)"
  by (auto simp: insertCheckInLog_def log_keys_def Let_def)

lemma findOneEvent_parsed:
  "parseUuid pf x = Some eid \<Longrightarrow>
     findOneEvent pf s x = Inr (find (\<lambda>e. e_eventId e = eid) (events s))"
  by (simp add: findOneEvent_def bindUuid_def)

lemma findOneEvent_Some_D:
  assumes "findOneEvent pf s x = Inr (Some ev)"
  shows "parseUuid pf x = Some (e_eventId ev)
         \<and> find (\<lambda>e. e_eventId e = e_eventId ev) (events s) = Some ev"
proof -
  obtain eid where p: "parseUuid pf x = Some eid"
    and f: "find (\<lambda>e. e_eventId e = eid) (events s) = Some ev"
    using assms by (auto simp: findOneEvent_def bindUuid_def split: option.splits)
  from find_Some_holds [OF f] have "e_eventId ev = eid" by simp
  with p f show ?thesis by simp
qed

lemma findOneParticipant_parsed:
  "parseUuid pf x = Some eid \<Longrightarrow>
     findOneParticipant pf s x idNumber = Inr (participantFor s eid idNumber)"
  by (simp add: findOneParticipant_def bindUuid_def participantFor_def)

lemma findOneCheckInLog_parsed:
  "parseUuid pf x = Some eid \<Longrightarrow>
     findOneCheckInLog pf s pid x d =
       Inr (find (\<lambda>l. l_participantId l = pid \<and> l_eventId l = eid \<and> l_checkInDate l = d)
              (checkInLogs s))"
  by (simp add: findOneCheckInLog_def bindUuid_def)

lemma find_log_None:
  "(find (\<lambda>l. l_participantId l = pid \<and> l_eventId l = eid \<and> l_checkInDate l = d)
      (checkInLogs s) = None) = ((pid, eid, d) \<notin> set (log_keys s))"
  by (auto simp: log_keys_def log_key_def find_None_iff)

lemma saveCheckInLog_parsed:
  "parseUuid pf x = Some eid \<Longrightarrow>
     saveCheckInLog pf s pid x by d at =
       insertCheckInLog s \<lparr>l_id = 0, l_participantId = pid, l_eventId = eid,
                          l_checkedInById = by, l_checkInDate = d, l_checkedInAt = at\<rparr>"
  by (simp add: saveCheckInLog_def bindUuid_def)

lemma saveParticipant_logs:
  "saveParticipant pf s b found = Inr (p, s') \<Longrightarrow>
     checkInLogs s' = checkInLogs s \<and> events s' = events s"
  by (auto simp: saveParticipant_def insertParticipant_def updateParticipant_def Let_def
      bindUuid_def split: option.splits if_splits sum.splits)

subsection \<open>Find or create participant\<close>

text \<open>
  A save keeps every participant lookup pointing at a row with the same id: an insert
  appends, an update leaves ids and the key columns alone.
\<close>

lemma saveParticipant_keeps_lookup:
  assumes "saveParticipant pf s b found = Inr (p, s')"
      and "participantFor s eid idn = Some q"
  shows "\<exists>q'. participantFor s' eid idn = Some q' \<and> p_id q' = p_id q"
proof (cases found)
  case None
  then have "\<exists>r. participants s' = participants s @ [r]"
    using assms(1)
    by (auto simp: saveParticipant_def insertParticipant_def Let_def
        split: sum.splits option.splits if_splits)
  then show ?thesis
    using assms(2) by (auto simp: participantFor_def find_append_cases)
next
  case (Some p0)
  let ?P = "\<lambda>p. p_eventId p = eid \<and> p_idNumber p = idn"
  obtain upd where upd: "participants s' = map upd (participants s)"
    and key: "\<And>x. ?P (upd x) = ?P x" and ids: "\<And>x. p_id (upd x) = p_id x"
  proof -
    let ?new = "p0\<lparr>p_name := str (b_name b),
               p_dateOfBirth := newDate pf (str (b_dateOfBirth b)),
               p_sex := str (b_sex b), p_county := orNull (b_county b),
               p_constituency := orNull (b_constituency b), p_ward := orNull (b_ward b),
               p_pollingCenter := orNull (b_pollingCenter b)\<rparr>"
    let ?upd = "\<lambda>q. if p_id q = p_id ?new
                   then q\<lparr>p_name := p_name ?new, p_dateOfBirth := p_dateOfBirth ?new,
                          p_sex := p_sex ?new, p_county := p_county ?new,
                          p_constituency := p_constituency ?new, p_ward := p_ward ?new,
                          p_pollingCenter := p_pollingCenter ?new\<rparr>
                   else q"
    have "participants s' = map ?upd (participants s)"
      using assms(1) Some
      by (auto simp: saveParticipant_def updateParticipant_def split: option.splits)
    moreover have "\<And>x. ?P (?upd x) = ?P x" by simp
    moreover have "\<And>x. p_id (?upd x) = p_id x" by simp
    ultimately show ?thesis by (rule that)
  qed
  have "find ?P (map upd (participants s)) = map_option upd (find ?P (participants s))"
    by (rule find_map_stable) (rule key)
  then show ?thesis
    using assms(2) upd ids by (simp add: participantFor_def)
qed

text \<open>What the find-or-create block returns and leaves in the store.\<close>

lemma findOrCreateParticipant_Inr:
  assumes "findOrCreateParticipant pf s b = Inr (p, s')"
  shows "\<exists>eid. parseUuid pf (str (b_eventId b)) = Some eid
           \<and> participantFor s' eid (str (b_idNumber b)) = Some p
           \<and> (\<forall>p0. participantFor s eid (str (b_idNumber b)) = Some p0 \<longrightarrow> p_id p = p_id p0)
           \<and> p_name p = str (b_name b)
           \<and> p_dateOfBirth p = newDate pf (str (b_dateOfBirth b))
           \<and> p_sex p = str (b_sex b)
           \<and> p_county p = orNull (b_county b)
           \<and> p_constituency p = orNull (b_constituency b)
           \<and> p_ward p = orNull (b_ward b)
           \<and> p_pollingCenter p = orNull (b_pollingCenter b)
           \<and> checkInLogs s' = checkInLogs s \<and> events s' = events s"
proof -
  obtain eid where parse: "parseUuid pf (str (b_eventId b)) = Some eid"
    using assms
    by (auto simp: findOrCreateParticipant_def findOneParticipant_def bindUuid_def
        split: option.splits)
  let ?found = "participantFor s eid (str (b_idNumber b))"
  have save: "saveParticipant pf s b ?found = Inr (p, s')"
    using assms parse by (simp add: findOrCreateParticipant_def findOneParticipant_parsed)
  have rest: "participantFor s' eid (str (b_idNumber b)) = Some p
           \<and> (\<forall>p0. participantFor s eid (str (b_idNumber b)) = Some p0 \<longrightarrow> p_id p = p_id p0)
           \<and> p_name p = str (b_name b)
           \<and> p_dateOfBirth p = newDate pf (str (b_dateOfBirth b))
           \<and> p_sex p = str (b_sex b)
           \<and> p_county p = orNull (b_county b)
           \<and> p_constituency p = orNull (b_constituency b)
           \<and> p_ward p = orNull (b_ward b)
           \<and> p_pollingCenter p = orNull (b_pollingCenter b)
           \<and> checkInLogs s' = checkInLogs s \<and> events s' = events s"
  proof (cases ?found)
    case None
    then show ?thesis
      using save parse
      by (auto simp: saveParticipant_def insertParticipant_def bindUuid_def
          participantFor_def Let_def find_append_cases split: if_splits option.splits)
  next
    case (Some p0)
    let ?P = "\<lambda>p. p_eventId p = eid \<and> p_idNumber p = str (b_idNumber b)"
    let ?new = "p0\<lparr>p_name := str (b_name b),
               p_dateOfBirth := newDate pf (str (b_dateOfBirth b)),
               p_sex := str (b_sex b), p_county := orNull (b_county b),
               p_constituency := orNull (b_constituency b), p_ward := orNull (b_ward b),
               p_pollingCenter := orNull (b_pollingCenter b)\<rparr>"
    let ?upd = "\<lambda>q. if p_id q = p_id ?new
                   then q\<lparr>p_name := p_name ?new, p_dateOfBirth := p_dateOfBirth ?new,
                          p_sex := p_sex ?new, p_county := p_county ?new,
                          p_constituency := p_constituency ?new, p_ward := p_ward ?new,
                          p_pollingCenter := p_pollingCenter ?new\<rparr>
                   else q"
    have found: "find ?P (participants s) = Some p0"
      using Some by (simp add: participantFor_def)
    have "find ?P (map ?upd (participants s)) = map_option ?upd (find ?P (participants s))"
      by (rule find_map_stable) simp
    then have again: "find ?P (map ?upd (participants s)) = Some ?new"
      using found by simp
    show ?thesis
      using save Some again
      by (auto simp: saveParticipant_def updateParticipant_def participantFor_def
          split: option.splits)
  qed
  with parse show ?thesis by blast
qed

lemma findOrCreateParticipant_succeeds:
  assumes "storable pf b" and "parseUuid pf (str (b_eventId b)) = Some eid"
  shows "\<exists>p s'. findOrCreateParticipant pf s b = Inr (p, s')"
  using assms
  by (simp add: findOrCreateParticipant_def findOneParticipant_parsed saveParticipant_def
      insertParticipant_def updateParticipant_def demographicsFit_def bindUuid_def
      storable_def fits_orNull Let_def split: option.splits)

subsection \<open>The check-in handler\<close>

text \<open>The handler once the request has passed validation, event lookup and access check.\<close>

lemma checkin_admitted:
  assumes "hasRequiredFields b"
      and "findOneEvent pf s (str (b_eventId b)) = Inr (Some ev)"
      and "checkEventAccess ev usr"
      and "findOrCreateParticipant pf s b = Inr (p, s1)"
  shows "checkin pf now s usr b =
           (if (p_id p, e_eventId ev, setHours0 now) \<in> set (log_keys s1)
            then (AlreadyCheckedIn, s1)
            else (let l = \<lparr>l_id = nextId s1, l_participantId = p_id p,
                           l_eventId = e_eventId ev, l_checkedInById = u_id usr,
                           l_checkInDate = setHours0 now, l_checkedInAt = now\<rparr>
                  in ((201, CheckedIn l p),
                      s1\<lparr>checkInLogs := checkInLogs s1 @ [l], nextId := Suc (nextId s1)\<rparr>)))"
proof -
  have parse: "parseUuid pf (str (b_eventId b)) = Some (e_eventId ev)"
    using findOneEvent_Some_D [OF assms(2)] by simp
  note pre = findOneCheckInLog_parsed [OF parse, of s1 "p_id p" "setHours0 now"]
  note ins = saveCheckInLog_parsed [OF parse, of s1 "p_id p" "u_id usr" "setHours0 now" now]
  show ?thesis
  proof (cases "(p_id p, e_eventId ev, setHours0 now) \<in> set (log_keys s1)")
    case True
    then obtain x where
      "find (\<lambda>l. l_participantId l = p_id p \<and> l_eventId l = e_eventId ev
                   \<and> l_checkInDate l = setHours0 now) (checkInLogs s1) = Some x"
      using find_log_None [of "p_id p" "e_eventId ev" "setHours0 now" s1] by auto
    then show ?thesis
      using assms True pre
      by (simp add: checkin_def hasRequiredFields_def AlreadyCheckedIn_def Let_def)
  next
    case False
    then have none:
      "find (\<lambda>l. l_participantId l = p_id p \<and> l_eventId l = e_eventId ev
                   \<and> l_checkInDate l = setHours0 now) (checkInLogs s1) = None"
      using find_log_None [of "p_id p" "e_eventId ev" "setHours0 now" s1] by simp
    have "log_key \<lparr>l_id = 0, l_participantId = p_id p, l_eventId = e_eventId ev,
                    l_checkedInById = u_id usr, l_checkInDate = setHours0 now,
                    l_checkedInAt = now\<rparr> \<notin> set (log_keys s1)"
      using False by (simp add: log_key_def)
    from insertCheckInLog_fresh [OF this] show ?thesis
      using assms False none pre ins
      by (simp add: checkin_def hasRequiredFields_def Let_def)
  qed
qed

lemma checkin_Created_D:
  assumes "checkin pf now s usr b = ((201, CheckedIn l p), s')"
  shows "hasRequiredFields b
         \<and> (\<exists>ev. findOneEvent pf s (str (b_eventId b)) = Inr (Some ev)
                \<and> checkEventAccess ev usr
                \<and> (\<exists>s1. findOrCreateParticipant pf s b = Inr (p, s1)
                       \<and> (p_id p, e_eventId ev, setHours0 now) \<notin> set (log_keys s1)
                       \<and> log_key l = (p_id p, e_eventId ev, setHours0 now)
                       \<and> checkInLogs s' = checkInLogs s1 @ [l]
                       \<and> participants s' = participants s1 \<and> events s' = events s1))"
proof -
  have req: "hasRequiredFields b"
    using assms by (auto simp: checkin_def hasRequiredFields_def)
  then obtain ev where ev: "findOneEvent pf s (str (b_eventId b)) = Inr (Some ev)"
    using assms
    by (auto simp: checkin_def hasRequiredFields_def split: option.splits sum.splits)
  have acc: "checkEventAccess ev usr"
    using assms req ev by (auto simp: checkin_def hasRequiredFields_def split: if_splits)
  obtain p' s1 where foc: "findOrCreateParticipant pf s b = Inr (p', s1)"
    using assms req ev acc
    by (auto simp: checkin_def hasRequiredFields_def split: sum.splits)
  have "checkin pf now s usr b = ((201, CheckedIn l p), s')"
    by (rule assms)
  then have rest: "p' = p
      \<and> (p_id p, e_eventId ev, setHours0 now) \<notin> set (log_keys s1)
      \<and> log_key l = (p_id p, e_eventId ev, setHours0 now)
      \<and> checkInLogs s' = checkInLogs s1 @ [l]
      \<and> participants s' = participants s1 \<and> events s' = events s1"
    unfolding checkin_admitted [OF req ev acc foc]
    by (auto simp: AlreadyCheckedIn_def Let_def log_key_def split: if_splits)
  show ?thesis
    using req ev acc foc rest by blast
qed

lemma checkin_missing_field:
  assumes "\<not> hasRequiredFields b"
  shows "checkin pf now s usr b = (ValidationError, s)"
  using assms by (auto simp: checkin_def hasRequiredFields_def ValidationError_def)

lemma checkin_without_event_changes_nothing:
  assumes "\<forall>ev. findOneEvent pf s (str (b_eventId b)) \<noteq> Inr (Some ev)"
  shows "snd (checkin pf now s usr b) = s"
  using assms by (auto simp: checkin_def split: sum.splits option.splits)

text \<open>
  Run without interruption, the five steps of a task are the handler: the task machine
  adds the interleavings and nothing else.
\<close>

lemma checkin_as_steps:
  "(step_on pf now ^^ 5) (Received usr b, s)
     = (Responded (fst (checkin pf now s usr b)), snd (checkin pf now s usr b))"
  by (simp add: eval_nat_numeral step_on_def checkin_def findOrCreateParticipant_def Let_def
      split: option.splits sum.splits prod.splits)

text \<open>
  What one step does to the log table and what it lets the caller observe: either it
  writes no log row, and any attempt it ends is a loss on a triple that is already
  recorded; or it appends one row with a new triple and answers 201 for it.
\<close>

lemma checkin_step_effect:
  assumes "checkin_step pf now s t = (t', s')"
  shows "(checkInLogs s' = checkInLogs s
            \<and> (\<forall>e \<in> set (completes pf now s t).
                   fst e \<in> set (log_keys s)
                   \<and> (snd e = AlreadyCheckedIn \<or> snd e = InternalError)))
         \<or> (\<exists>l p. log_key l \<notin> set (log_keys s) \<and> checkInLogs s' = checkInLogs s @ [l]
                \<and> completes pf now s t = [(log_key l, (201, CheckedIn l p))])"
proof (cases t)
  case (Received usr b)
  then show ?thesis
    using assms by (auto simp: completes_def split: option.splits if_splits sum.splits)
next
  case (Authorized usr b)
  then show ?thesis
    using assms by (auto simp: completes_def split: sum.splits)
next
  case (Looked_up usr b found)
  then show ?thesis
    using assms by (auto simp: completes_def split: sum.splits dest: saveParticipant_logs)
next
  case (Resolved usr b p)
  show ?thesis
  proof (cases "parseUuid pf (str (b_eventId b))")
    case None
    then show ?thesis
      using assms Resolved
      by (auto simp: completes_def findOneCheckInLog_def bindUuid_def Let_def)
  next
    case (Some eid)
    note pre = findOneCheckInLog_parsed [OF Some, of s "p_id p" "setHours0 now"]
    show ?thesis
    proof (cases "(p_id p, eid, setHours0 now) \<in> set (log_keys s)")
      case True
      then obtain x where
        "find (\<lambda>l. l_participantId l = p_id p \<and> l_eventId l = eid
                     \<and> l_checkInDate l = setHours0 now) (checkInLogs s) = Some x"
        using find_log_None [of "p_id p" eid "setHours0 now" s] by auto
      then show ?thesis
        using assms Resolved Some True pre
        by (auto simp: completes_def Let_def AlreadyCheckedIn_def)
    next
      case False
      then have
        "find (\<lambda>l. l_participantId l = p_id p \<and> l_eventId l = eid
                     \<and> l_checkInDate l = setHours0 now) (checkInLogs s) = None"
        using find_log_None [of "p_id p" eid "setHours0 now" s] by simp
      then show ?thesis
        using assms Resolved Some pre by (auto simp: completes_def Let_def)
    qed
  qed
next
  case (Prechecked usr b p today)
  show ?thesis
  proof (cases "parseUuid pf (str (b_eventId b))")
    case None
    then show ?thesis
      using assms Prechecked by (auto simp: completes_def saveCheckInLog_def bindUuid_def)
  next
    case (Some eid)
    let ?row = "\<lparr>l_id = 0, l_participantId = p_id p, l_eventId = eid,
                 l_checkedInById = u_id usr, l_checkInDate = today, l_checkedInAt = now\<rparr>"
    note ins = saveCheckInLog_parsed [OF Some, of s "p_id p" "u_id usr" today now]
    have key: "log_key ?row = (p_id p, eid, today)"
      by (simp add: log_key_def)
    show ?thesis
    proof (cases "insertCheckInLog s ?row")
      case (Inl err)
      then have "log_key ?row \<in> set (log_keys s)"
        by (auto simp: insertCheckInLog_def log_keys_def Let_def split: if_splits)
      then show ?thesis
        using assms Prechecked Some Inl key ins
        by (auto simp: completes_def InternalError_def)
    next
      case (Inr res)
      obtain l s2 where res: "res = (l, s2)" by (cases res)
      from insertCheckInLog_Inr [of s ?row l s2] Inr res
      have "log_key l = log_key ?row" "log_key ?row \<notin> set (log_keys s)"
        "checkInLogs s2 = checkInLogs s @ [l]"
        by simp_all
      then show ?thesis
        using assms Prechecked Some Inr res key ins by (auto simp: completes_def)
    qed
  qed
next
  case (Responded r)
  then show ?thesis
    using assms by (auto simp: completes_def)
qed

lemma checkin_step_distinct:
  assumes "distinct (log_keys s)"
  shows "distinct (log_keys (snd (checkin_step pf now s t)))"
proof -
  obtain t' s' where step: "checkin_step pf now s t = (t', s')"
    by (cases "checkin_step pf now s t")
  from checkin_step_effect [OF step] assms have "distinct (log_keys s')"
    by (auto simp: log_keys_def)
  then show ?thesis
    using step by simp
qed

lemma responses_for_append:
  "responses_for k (xs @ ys) = responses_for k xs @ responses_for k ys"
  by (simp add: responses_for_def)

lemma responses_for_absent:
  "\<forall>e \<in> set xs. fst e \<noteq> k \<Longrightarrow> responses_for k xs = []"
  by (induction xs) (auto simp: responses_for_def)

lemma exec_logs_grow:
  "exec pf sched (s, ts) = (tr, final) \<Longrightarrow> set (checkInLogs s) \<subseteq> set (checkInLogs (fst final))"
proof (induction sched arbitrary: s ts tr final)
  case Nil
  then show ?case by auto
next
  case (Cons a sched)
  obtain i now where a: "a = (i, now)" by (cases a)
  show ?case
  proof (cases "i < length ts")
    case False
    with Cons a show ?thesis by simp
  next
    case True
    obtain t' s' where step: "checkin_step pf now s (ts ! i) = (t', s')"
      by (cases "checkin_step pf now s (ts ! i)")
    obtain tr' where rest: "exec pf sched (s', ts[i := t']) = (tr', final)"
      using Cons.prems a True step by (auto split: prod.splits)
    have "set (checkInLogs s) \<subseteq> set (checkInLogs s')"
      using checkin_step_effect [OF step] by auto
    with Cons.IH [OF rest] show ?thesis by blast
  qed
qed

lemma exec_responses:
  assumes "exec pf sched (s, ts) = (tr, final)"
  shows "(k \<in> set (log_keys s) \<longrightarrow> losses_only (responses_for k tr))
         \<and> (k \<notin> set (log_keys s) \<longrightarrow> one_winner k (fst final) (responses_for k tr))"
  using assms
proof (induction sched arbitrary: s ts tr final)
  case Nil
  then show ?case
    by (auto simp: responses_for_def losses_only_def one_winner_def)
next
  case (Cons a sched)
  obtain i now where a: "a = (i, now)" by (cases a)
  show ?case
  proof (cases "i < length ts")
    case False
    with Cons a show ?thesis by simp
  next
    case True
    obtain t' s' where step: "checkin_step pf now s (ts ! i) = (t', s')"
      by (cases "checkin_step pf now s (ts ! i)")
    obtain tr' where rest: "exec pf sched (s', ts[i := t']) = (tr', final)"
      and tr: "tr = completes pf now s (ts ! i) @ tr'"
      using Cons.prems a True step by (auto split: prod.splits)
    note IH = Cons.IH [OF rest]
    let ?c = "completes pf now s (ts ! i)"
    have split: "responses_for k tr = responses_for k ?c @ responses_for k tr'"
      using tr by (simp add: responses_for_append)
    from checkin_step_effect [OF step] show ?thesis
    proof
      assume quiet: "checkInLogs s' = checkInLogs s
          \<and> (\<forall>e \<in> set ?c. fst e \<in> set (log_keys s)
                \<and> (snd e = AlreadyCheckedIn \<or> snd e = InternalError))"
      then have keys: "log_keys s' = log_keys s"
        by (simp add: log_keys_def)
      have lost: "losses_only (responses_for k ?c)"
        using quiet by (auto simp: losses_only_def responses_for_def)
      have none: "k \<notin> set (log_keys s) \<Longrightarrow> responses_for k ?c = []"
        using quiet by (intro responses_for_absent) auto
      show ?thesis
        using IH keys lost none split by (auto simp: losses_only_def)
    next
      assume "\<exists>l p. log_key l \<notin> set (log_keys s) \<and> checkInLogs s' = checkInLogs s @ [l]
                \<and> ?c = [(log_key l, (201, CheckedIn l p))]"
      then obtain l p where
        fresh: "log_key l \<notin> set (log_keys s)" and
        logs: "checkInLogs s' = checkInLogs s @ [l]" and
        c: "?c = [(log_key l, (201, CheckedIn l p))]"
        by blast
      have keys: "log_keys s' = log_keys s @ [log_key l]"
        using logs by (simp add: log_keys_def)
      have kept: "l \<in> set (checkInLogs (fst final))"
        using exec_logs_grow [OF rest] logs by auto
      show ?thesis
      proof (cases "k = log_key l")
        case True
        then have "losses_only (responses_for k tr')"
          using IH keys by simp
        moreover have "responses_for k tr = (201, CheckedIn l p) # responses_for k tr'"
          using split c True by (simp add: responses_for_def)
        ultimately show ?thesis
          using True fresh kept by (auto simp: one_winner_def)
      next
        case False
        then have "responses_for k tr = responses_for k tr'"
          using split c by (simp add: responses_for_def)
        then show ?thesis
          using IH keys False by auto
      qed
    qed
  qed
qed

subsection \<open>Event routes\<close>

lemma createEvent_logs: "checkInLogs (snd (createEvent s usr eb)) = checkInLogs s"
  by (auto simp: createEvent_def insertEvent_def Let_def split: option.splits sum.splits if_splits)

lemma deleteEvent_distinct:
  "distinct (log_keys s) \<Longrightarrow> distinct (log_keys (snd (deleteEvent pf s usr eventId)))"
  by (auto simp: deleteEvent_def removeEvent_def log_keys_def distinct_map_filter
      split: option.splits sum.splits if_splits)

lemma deleteEvent_forbidden:
  assumes "findOneEvent pf s eventId = Inr (Some ev)"
      and "u_role usr \<noteq> ADMIN \<or> e_createdById ev \<noteq> u_id usr"
  shows "fst (fst (deleteEvent pf s usr eventId)) = 403 \<and> snd (deleteEvent pf s usr eventId) = s"
  using assms by (auto simp: deleteEvent_def requireAdmin_def)

lemma deleteEvent_without_participants:
  assumes "findOneEvent pf s eventId = Inr (Some ev)"
      and "u_role usr = ADMIN" and "e_createdById ev = u_id usr"
      and "e_eventId ev \<notin> set (map p_eventId (participants s))"
  shows "deleteEvent pf s usr eventId =
           ((200, Message ''Event deleted successfully''),
            s\<lparr>events := filter (\<lambda>e. e_eventId e \<noteq> e_eventId ev) (events s),
              checkInLogs := filter (\<lambda>l. l_eventId l \<noteq> e_eventId ev) (checkInLogs s)\<rparr>)"
  using assms by (simp add: deleteEvent_def requireAdmin_def removeEvent_def)

subsection \<open>Reachability\<close>

lemma reachable_steps:
  "reachable pf s \<Longrightarrow> reachable pf (snd ((step_on pf now ^^ n) (t, s)))"
proof (induction n)
  case 0
  then show ?case by simp
next
  case (Suc n)
  obtain t' s' where mid: "(step_on pf now ^^ n) (t, s) = (t', s')"
    by (cases "(step_on pf now ^^ n) (t, s)")
  have "(step_on pf now ^^ Suc n) (t, s) = step_on pf now (t', s')"
    using mid by simp
  then have eq: "(step_on pf now ^^ Suc n) (t, s) = checkin_step pf now s' t'"
    by (simp only: step_on_def [of pf now "(t', s')"] fst_conv snd_conv)
  have "reachable pf s'"
    using Suc mid by simp
  then show ?case
    unfolding eq by (rule reach_checkin_step)
qed

lemma reachable_checkin:
  assumes "reachable pf s"
  shows "reachable pf (snd (checkin pf now s usr b))"
  using reachable_steps [OF assms, where now = now and n = 5 and t = "Received usr b"]
  by (simp add: checkin_as_steps)

subsection \<open>An established check-in survives later traffic\<close>

text \<open>
  No request to the modelled routes removes the event, re-points the identity number
  to another participant, or removes the log row: check-ins only append and update
  demographics, event creation appends, and deletion of the event is refused while its
  participant exists.
\<close>

lemma checkin_step_keeps:
  assumes "established s ev idn pid k"
  shows "established (snd (checkin_step pf now s t)) ev idn pid k"
proof -
  obtain t' s' where step: "checkin_step pf now s t = (t', s')"
    by (cases "checkin_step pf now s t")
  have logs: "set (log_keys s) \<subseteq> set (log_keys s')"
    using checkin_step_effect [OF step] by (auto simp: log_keys_def)
  have evs: "events s' = events s"
    using step
    by (cases t)
       (auto simp: Let_def saveCheckInLog_def bindUuid_def
          split: option.splits sum.splits if_splits
          dest: saveParticipant_logs insertCheckInLog_Inr)
  obtain q where q: "participantFor s (e_eventId ev) idn = Some q" "p_id q = pid"
    using assms by (auto simp: established_def)
  have "\<exists>q'. participantFor s' (e_eventId ev) idn = Some q' \<and> p_id q' = p_id q"
  proof (cases t)
    case (Looked_up usr b found)
    show ?thesis
    proof (cases "saveParticipant pf s b found")
      case (Inl err)
      then show ?thesis using step Looked_up q by auto
    next
      case (Inr res)
      obtain p s1 where res: "res = (p, s1)" by (cases res)
      from saveParticipant_keeps_lookup [of pf s b found p s1, OF _ q(1)] Inr res
      show ?thesis using step Looked_up by auto
    qed
  next
    case (Prechecked usr b p today)
    have "participants s' = participants s"
      using step Prechecked
      by (auto simp: saveCheckInLog_def bindUuid_def split: option.splits sum.splits
          dest: insertCheckInLog_Inr)
    then show ?thesis using q by (simp add: participantFor_def)
  qed (use step q in \<open>auto simp: Let_def split: option.splits sum.splits if_splits\<close>)
  then show ?thesis
    using assms logs evs q step by (auto simp: established_def)
qed

lemma steps_keep:
  "established s ev idn pid k \<Longrightarrow>
     established (snd ((step_on pf now ^^ n) (t, s))) ev idn pid k"
proof (induction n)
  case 0
  then show ?case by simp
next
  case (Suc n)
  obtain t' s' where mid: "(step_on pf now ^^ n) (t, s) = (t', s')"
    by (cases "(step_on pf now ^^ n) (t, s)")
  have "(step_on pf now ^^ Suc n) (t, s) = step_on pf now (t', s')"
    using mid by simp
  then have eq: "(step_on pf now ^^ Suc n) (t, s) = checkin_step pf now s' t'"
    by (simp only: step_on_def [of pf now "(t', s')"] fst_conv snd_conv)
  have "established s' ev idn pid k"
    using Suc mid by simp
  then show ?case
    unfolding eq by (rule checkin_step_keeps)
qed

lemma checkin_keeps:
  assumes "established s ev idn pid k"
  shows "established (snd (checkin pf now s usr b)) ev idn pid k"
  using steps_keep [OF assms, where now = now and n = 5 and t = "Received usr b" and pf = pf]
  by (simp add: checkin_as_steps)

lemma createEvent_keeps:
  assumes "established s ev idn pid k"
  shows "established (snd (createEvent s usr eb)) ev idn pid k"
  using assms
  by (auto simp: createEvent_def insertEvent_def established_def participantFor_def
      log_keys_def find_append_cases Let_def split: option.splits sum.splits if_splits)

lemma deleteEvent_keeps:
  assumes "established s ev idn pid k" and "fst (snd k) = e_eventId ev"
  shows "established (snd (deleteEvent pf s usr eventId)) ev idn pid k"
proof (cases "\<exists>ev' s'. findOneEvent pf s eventId = Inr (Some ev') \<and> removeEvent s ev' = Inr s'
                  \<and> snd (deleteEvent pf s usr eventId) = s'")
  case False
  then have "snd (deleteEvent pf s usr eventId) = s"
    by (auto simp: deleteEvent_def split: option.splits sum.splits if_splits)
  then show ?thesis using assms by simp
next
  case True
  then obtain ev' s' where rm: "removeEvent s ev' = Inr s'"
    and out: "snd (deleteEvent pf s usr eventId) = s'"
    by blast
  obtain q where q: "participantFor s (e_eventId ev) idn = Some q"
    using assms by (auto simp: established_def)
  from find_Some_holds [OF q [unfolded participantFor_def]]
  have "e_eventId ev \<in> set (map p_eventId (participants s))"
    by force
  then have other: "e_eventId ev' \<noteq> e_eventId ev"
    using rm by (auto simp: removeEvent_def split: if_splits)
  have s': "s' = s\<lparr>events := filter (\<lambda>e. e_eventId e \<noteq> e_eventId ev') (events s),
                   checkInLogs := filter (\<lambda>l. l_eventId l \<noteq> e_eventId ev') (checkInLogs s)\<rparr>"
    using rm by (auto simp: removeEvent_def split: if_splits)
  have evs: "find (\<lambda>e. e_eventId e = e_eventId ev) (events s') = Some ev"
  proof -
    have "find (\<lambda>e. e_eventId e = e_eventId ev)
            (filter (\<lambda>e. e_eventId e \<noteq> e_eventId ev') (events s))
          = find (\<lambda>e. e_eventId e = e_eventId ev) (events s)"
      by (rule find_filter_stable) (use other in simp)
    then show ?thesis using assms s' by (simp add: established_def)
  qed
  obtain l where l: "l \<in> set (checkInLogs s)" "log_key l = k"
    using assms by (auto simp: established_def log_keys_def)
  then have "l_eventId l = e_eventId ev"
    using assms(2) by (auto simp: log_key_def)
  then have "l \<in> set (checkInLogs s')"
    using l other s' by simp
  then have "k \<in> set (log_keys s')"
    using l by (auto simp: log_keys_def)
  then show ?thesis
    using assms evs s' out by (simp add: established_def participantFor_def)
qed

lemma serve_all_keeps:
  assumes "established s ev idn pid k" and "fst (snd k) = e_eventId ev"
  shows "established (serve_all pf reqs s) ev idn pid k"
  using assms(1)
proof (induction reqs arbitrary: s)
  case Nil
  then show ?case by (simp add: serve_all_def)
next
  case (Cons r reqs)
  have "established (serve pf s r) ev idn pid k"
    using Cons.prems assms(2)
    by (cases r) (simp_all add: checkin_keeps createEvent_keeps deleteEvent_keeps)
  from Cons.IH [OF this] show ?case
    by (simp add: serve_all_def)
qed

subsection \<open>The sample data, evaluated\<close>

lemmas sample_defs = strict_platform_def sample_parseUuid_def owner1_def delegate1_def
  rally_def body123_def day0_def ann_def log_day0_def

lemmas storage_defs = findOneEvent_def findOneParticipant_def findOneCheckInLog_def
  saveParticipant_def saveCheckInLog_def insertParticipant_def updateParticipant_def
  demographicsFit_def insertCheckInLog_def insertEvent_def removeEvent_def bindUuid_def
  fits_def log_key_def

lemmas request_defs = falsy_def str_def orNull_def setHours0_def checkEventAccess_def
  requireAdmin_def Let_def

lemma store1_eq:
  "store1 = \<lparr>events = [\<lparr>e_eventId = 0, e_eventName = ''Rally'', e_county = ''R1'',
                         e_constituency = None, e_ward = None, e_createdById = 1001\<rparr>],
             participants = [], checkInLogs = [], nextId = 1\<rparr>"
  by (simp add: store1_def createEvent_def empty_store_def sample_defs storage_defs request_defs)

lemma store_ward_only_eq:
  "store_ward_only =
     \<lparr>events = [\<lparr>e_eventId = 0, e_eventName = ''Rally'', e_county = ''R'',
                 e_constituency = None, e_ward = Some ''L'', e_createdById = 1001\<rparr>],
      participants = [], checkInLogs = [], nextId = 1\<rparr>"
  by (simp add: store_ward_only_def ward_only_def createEvent_def empty_store_def sample_defs
      storage_defs request_defs)

lemma first_checkin:
  "checkin strict_platform day0 store1 owner1 body123 = ((201, CheckedIn log_day0 ann), store2)"
  by (simp add: checkin_def findOrCreateParticipant_def store2_def store1_eq sample_defs
      storage_defs request_defs)

lemma race_prefix_run:
  "exec strict_platform race_prefix two_requests
     = ([((1, 0, 0), (201, CheckedIn log_day0 ann))],
        (store2, [Responded (201, CheckedIn log_day0 ann), Prechecked delegate1 body123 ann 0]))"
  by (simp add: race_prefix_def two_requests_def completes_def store2_def store1_eq sample_defs
      storage_defs request_defs)

lemma race_run:
  "exec strict_platform race two_requests
     = ([((1, 0, 0), (201, CheckedIn log_day0 ann)),
         ((1, 0, 0), (500, Message ''Internal server error''))],
        (store2, [Responded (201, CheckedIn log_day0 ann),
                  Responded (500, Message ''Internal server error'')]))"
  by (simp add: race_def race_prefix_def two_requests_def completes_def store2_def store1_eq
      sample_defs storage_defs request_defs)

lemma reachable_store2: "reachable strict_platform store2"
proof -
  have "reachable strict_platform store1"
    unfolding store1_def by (rule reach_createEvent [OF reach_empty])
  from reachable_checkin [OF this, of day0 owner1 body123] show ?thesis
    by (simp add: first_checkin)
qed

lemma traffic_day0:
  "log_keys (serve_all strict_platform other_day0 store2) = [(1, 0, 0), (3, 0, 0)]"
  by (simp add: serve_all_def other_day0_def body456_def day0_later_def checkin_def
      findOrCreateParticipant_def log_keys_def store2_def store1_eq sample_defs storage_defs
      request_defs)

lemma traffic_day1:
  "log_keys (serve_all strict_platform other_day1 store2) = [(1, 0, 0), (3, 0, 86400000)]"
  by (simp add: serve_all_def other_day1_def body456_def body123_corrected_def day0_later_def
      day1_def checkin_def findOrCreateParticipant_def log_keys_def store2_def store1_eq
      sample_defs storage_defs request_defs)

text \<open>
  The unique index protects a triple, not a person: \<open>participants\<close> has no unique index
  on (eventId, idNumber), so two first check-ins of the same person that both look the
  participant up before either saves it create two participants, and both are answered
  201, each for its own triple.
\<close>

lemma race_on_creation_run:
  "map (fst \<circ> snd) (fst (exec strict_platform race_on_creation two_requests)) = [201, 201]
   \<and> map fst (fst (exec strict_platform race_on_creation two_requests))
       = [(1, 0, 0), (2, 0, 0)]
   \<and> map p_idNumber (participants (fst (snd (exec strict_platform race_on_creation two_requests))))
       = [''123'', ''123'']"
  by (simp add: race_on_creation_def two_requests_def completes_def store1_eq sample_defs
      storage_defs request_defs)

text \<open>An \<open>eventId\<close> that is not a uuid makes the event lookup throw: 500, nothing written.\<close>

lemma checkin_malformed_eventId:
  "checkin strict_platform day0 store1 owner1 (body123\<lparr>b_eventId := Some ''zz''\<rparr>)
     = (InternalError, store1)"
  by (simp add: checkin_def InternalError_def store1_eq sample_defs storage_defs request_defs)

section \<open>Verified properties\<close>

text \<open>
  C1. In every reachable store no two rows of \<open>check_in_logs\<close> share the same
  (participantId, eventId, checkInDate) triple. Reachable means: from the empty database,
  by the event routes, by any step of any check-in request in any interleaving, and by
  any direct call of the storage operations with any row. The uniqueness is enforced by
  the table itself: an insert of a row whose triple is present is refused with a unique
  violation, whoever issues it and whatever was checked before.
\<close>

theorem checkInLog_triple_unique:
  assumes "reachable pf s"
  shows "distinct (map log_key (checkInLogs s))
         \<and> (\<forall>row. log_key row \<in> set (map log_key (checkInLogs s))
                \<longrightarrow> insertCheckInLog s row = Inl UniqueViolation)"
proof -
  have "distinct (log_keys s)"
    using assms
  proof (induction rule: reachable.induct)
    case reach_empty
    show ?case by (simp add: log_keys_def empty_store_def)
  next
    case (reach_createEvent s usr eb)
    then show ?case by (simp add: log_keys_def createEvent_logs)
  next
    case (reach_deleteEvent s usr eventId)
    then show ?case by (simp add: deleteEvent_distinct)
  next
    case (reach_checkin_step s now t)
    then show ?case by (simp add: checkin_step_distinct)
  next
    case (reach_insertParticipant s prow p s')
    then show ?case
      by (auto simp: insertParticipant_def log_keys_def Let_def
          split: if_splits option.splits)
  next
    case (reach_updateParticipant s prow p s')
    then show ?case
      by (auto simp: updateParticipant_def log_keys_def split: if_splits option.splits)
  next
    case (reach_insertCheckInLog s lrow l s')
    then show ?case
      using insertCheckInLog_Inr [of s lrow l s'] by (auto simp: log_keys_def)
  qed
  then show ?thesis
    by (auto simp: log_keys_def[symmetric] insertCheckInLog_Inl)
qed

text \<open>
  The store after one check-in is reachable; its single row is unique, and a second row
  for the same participant, event and day (recorded by another account at another time)
  is refused.
\<close>

theorem checkInLog_triple_unique_witness:
  "reachable strict_platform store2
   \<and> distinct (map log_key (checkInLogs store2))
   \<and> insertCheckInLog store2 (log_day0\<lparr>l_checkedInById := 1002, l_checkedInAt := 7\<rparr>)
       = Inl UniqueViolation"
  using checkInLog_triple_unique [OF reachable_store2] reachable_store2
  by (simp add: store2_def log_key_def log_day0_def)

text \<open>
  C2, as stated, fails. The claim says that an insert refused by the unique index, after
  a pre-check that found no row, is reported as the AlreadyCheckedIn conflict. In the
  run below two requests for the same person both pass the pre-check before either
  inserts; the first inserts; the insert of the second is refused, the exception lands
  in the handler's \<open>catch\<close> block, and the response is 500 "Internal server error".
\<close>

theorem insert_rejection_not_AlreadyCheckedIn:
  "exec strict_platform race_prefix two_requests
     = ([((1, 0, 0), (201, CheckedIn log_day0 ann))],
        (store2, [Responded (201, CheckedIn log_day0 ann), Prechecked delegate1 body123 ann 0]))
   \<and> saveCheckInLog strict_platform store2 (p_id ann) (str (b_eventId body123))
         (u_id delegate1) 0 day0
       = Inl UniqueViolation
   \<and> checkin_step strict_platform day0 store2 (Prechecked delegate1 body123 ann 0)
       = (Responded (500, Message ''Internal server error''), store2)
   \<and> (500, Message ''Internal server error'') \<noteq> AlreadyCheckedIn"
  by (simp add: race_prefix_run)
     (simp add: AlreadyCheckedIn_def store2_def store1_eq sample_defs storage_defs request_defs)

text \<open>
  C2, amended. When the triple of a request that has passed the pre-check is already in
  the table, the insert is refused by the unique index and the handler answers with the
  generic 500 "Internal server error" of its \<open>catch\<close> block, which is not the
  AlreadyCheckedIn response; the store is left as it was, so no row is written.
\<close>

theorem insert_rejection_is_InternalError:
  assumes "parseUuid pf (str (b_eventId b)) = Some eid"
      and "(p_id p, eid, today) \<in> set (log_keys s)"
  shows "insertCheckInLog s
           \<lparr>l_id = 0, l_participantId = p_id p, l_eventId = eid,
            l_checkedInById = u_id usr, l_checkInDate = today, l_checkedInAt = now\<rparr>
           = Inl UniqueViolation
         \<and> checkin_step pf now s (Prechecked usr b p today) = (Responded InternalError, s)
         \<and> fst InternalError = 500 \<and> InternalError \<noteq> AlreadyCheckedIn"
proof -
  have "log_key \<lparr>l_id = 0, l_participantId = p_id p, l_eventId = eid,
                  l_checkedInById = u_id usr, l_checkInDate = today, l_checkedInAt = now\<rparr>
          \<in> set (log_keys s)"
    using assms(2) by (simp add: log_key_def)
  from insertCheckInLog_Inl [OF this] show ?thesis
    by (simp add: saveCheckInLog_parsed [OF assms(1)] InternalError_def AlreadyCheckedIn_def)
qed

theorem insert_rejection_is_InternalError_witness:
  "parseUuid strict_platform (str (b_eventId body123)) = Some 0
   \<and> (p_id ann, 0, 0) \<in> set (log_keys store2)
   \<and> checkin_step strict_platform day0 store2 (Prechecked delegate1 body123 ann 0)
       = (Responded InternalError, store2)"
proof -
  have parse: "parseUuid strict_platform (str (b_eventId body123)) = Some 0"
    by (simp add: sample_defs request_defs)
  have present: "(p_id ann, 0, 0) \<in> set (log_keys store2)"
    by (simp add: log_keys_def store2_def sample_defs storage_defs request_defs)
  from insert_rejection_is_InternalError
         [OF parse present, where usr = delegate1 and now = day0]
       parse present
  show ?thesis
    by blast
qed

text \<open>
  C3. Read per (participant, event, day) triple, for requests that reach the ledger
  (all required fields, an existing event the caller may access, demographics the
  database can store). Let a check-in succeed with 201 on day D. Then it has appended
  exactly one log row, for that participant, event and day. Let any requests to the
  check-in and event routes be served afterwards, by anyone and for anyone; the triple
  stays recorded. A further attempt for the same (eventId, idNumber), by any caller with
  access and with any demographics, then gets the 400 AlreadyCheckedIn response and
  leaves the log table as it is whenever the triple of its day is recorded, in
  particular on day D itself (the participant's demographics are still overwritten, see
  C6); and whenever the triple of its day is not yet recorded, as on a later day on
  which this person has not checked in, whoever else has, it gets 201 for the same
  participant id and appends exactly one row for that day.
\<close>

theorem checkin_once_per_day:
  assumes first: "checkin pf t1 s0 u1 b1 = ((201, CheckedIn l1 p1), s1)"
      and ev: "findOneEvent pf s0 (str (b_eventId b1)) = Inr (Some ev)"
      and traffic: "s = serve_all pf reqs s1"
      and acc: "checkEventAccess ev usr"
      and req: "hasRequiredFields b"
      and key: "b_eventId b = b_eventId b1" "b_idNumber b = b_idNumber b1"
      and ok: "storable pf b"
  shows "checkInLogs s1 = checkInLogs s0 @ [l1]
         \<and> log_key l1 = (p_id p1, e_eventId ev, setHours0 t1)
         \<and> (p_id p1, e_eventId ev, setHours0 t1) \<in> set (log_keys s)
         \<and> (setHours0 t = setHours0 t1 \<longrightarrow>
              (\<exists>s'. checkin pf t s usr b = (AlreadyCheckedIn, s')
                   \<and> fst AlreadyCheckedIn = 400
                   \<and> checkInLogs s' = checkInLogs s))
         \<and> ((p_id p1, e_eventId ev, setHours0 t) \<in> set (log_keys s) \<longrightarrow>
              (\<exists>s'. checkin pf t s usr b = (AlreadyCheckedIn, s')
                   \<and> checkInLogs s' = checkInLogs s))
         \<and> ((p_id p1, e_eventId ev, setHours0 t) \<notin> set (log_keys s) \<longrightarrow>
              (\<exists>l p s'. checkin pf t s usr b = ((201, CheckedIn l p), s')
                   \<and> p_id p = p_id p1
                   \<and> log_key l = (p_id p1, e_eventId ev, setHours0 t)
                   \<and> checkInLogs s' = checkInLogs s @ [l]))"
proof -
  let ?eid = "e_eventId ev" and ?idn = "str (b_idNumber b1)"
  let ?k1 = "(p_id p1, ?eid, setHours0 t1)"
  have parse: "parseUuid pf (str (b_eventId b1)) = Some ?eid"
    and found0: "find (\<lambda>e. e_eventId e = ?eid) (events s0) = Some ev"
    using findOneEvent_Some_D [OF ev] by simp_all
  from checkin_Created_D [OF first] ev obtain s1a where
    foc1: "findOrCreateParticipant pf s0 b1 = Inr (p1, s1a)" and
    k1: "log_key l1 = ?k1" and
    logs1: "checkInLogs s1 = checkInLogs s1a @ [l1]" and
    parts1: "participants s1 = participants s1a" and
    evs1: "events s1 = events s1a"
    by auto
  from findOrCreateParticipant_Inr [OF foc1] parse have
    stored1: "participantFor s1a ?eid ?idn = Some p1" and
    logs1a: "checkInLogs s1a = checkInLogs s0" and evs1a: "events s1a = events s0"
    by auto
  have logs1': "checkInLogs s1 = checkInLogs s0 @ [l1]"
    using logs1 logs1a by simp
  have "established s1 ev ?idn (p_id p1) ?k1"
    using found0 evs1 evs1a stored1 parts1 k1 logs1
    by (auto simp: established_def participantFor_def log_keys_def)
  then have est: "established s ev ?idn (p_id p1) ?k1"
    unfolding traffic by (rule serve_all_keeps) simp
  then have recorded: "?k1 \<in> set (log_keys s)"
    and found: "find (\<lambda>e. e_eventId e = ?eid) (events s) = Some ev"
    by (simp_all add: established_def)
  obtain q where q: "participantFor s ?eid ?idn = Some q" "p_id q = p_id p1"
    using est by (auto simp: established_def)
  \<comment> \<open>the attempt on the store that the traffic has left\<close>
  have parse': "parseUuid pf (str (b_eventId b)) = Some ?eid"
    using parse key by simp
  have ev': "findOneEvent pf s (str (b_eventId b)) = Inr (Some ev)"
    using found by (simp add: findOneEvent_parsed [OF parse'])
  obtain p sa where foc: "findOrCreateParticipant pf s b = Inr (p, sa)"
    using findOrCreateParticipant_succeeds [OF ok parse'] by blast
  from findOrCreateParticipant_Inr [OF foc] parse' key q have
    pid: "p_id p = p_id p1" and logsa: "checkInLogs sa = checkInLogs s"
    by auto
  note run = checkin_admitted [OF req ev' acc foc, of t]
  have keys: "log_keys sa = log_keys s"
    using logsa by (simp add: log_keys_def)
  have rec: "(p_id p1, ?eid, setHours0 t) \<in> set (log_keys s) \<Longrightarrow>
               checkin pf t s usr b = (AlreadyCheckedIn, sa)"
    using run pid keys by simp
  have unrec: "(p_id p1, ?eid, setHours0 t) \<notin> set (log_keys s) \<Longrightarrow>
      \<exists>l p s'. checkin pf t s usr b = ((201, CheckedIn l p), s')
                   \<and> p_id p = p_id p1
                   \<and> log_key l = (p_id p1, ?eid, setHours0 t)
                   \<and> checkInLogs s' = checkInLogs s @ [l]"
    using run pid keys logsa by (simp add: Let_def log_key_def)
  show ?thesis
    using logs1' k1 recorded rec unrec logsa
    by (auto simp: AlreadyCheckedIn_def)
qed

text \<open>
  The scenario of the specification, with other traffic in between: the owner checks in
  idNumber 123 on day 0; someone else checks in; a delegate repeats 123 an hour later
  with corrected demographics and is refused; on day 1, after someone else has already
  checked in that day, the owner checks 123 in again and succeeds with the same
  participant id.
\<close>

theorem checkin_once_per_day_witness:
  "checkin strict_platform day0 store1 owner1 body123 = ((201, CheckedIn log_day0 ann), store2)
   \<and> checkInLogs store2 = checkInLogs store1 @ [log_day0]
   \<and> setHours0 day0_later = setHours0 day0
   \<and> (\<exists>s'. checkin strict_platform day0_later (serve_all strict_platform other_day0 store2)
               delegate1 body123_corrected = (AlreadyCheckedIn, s')
          \<and> checkInLogs s' = checkInLogs (serve_all strict_platform other_day0 store2))
   \<and> (p_id ann, 0, setHours0 day1) \<notin> set (log_keys (serve_all strict_platform other_day1 store2))
   \<and> (3, 0, setHours0 day1) \<in> set (log_keys (serve_all strict_platform other_day1 store2))
   \<and> (\<exists>l p s'. checkin strict_platform day1 (serve_all strict_platform other_day1 store2)
               owner1 body123 = ((201, CheckedIn l p), s')
          \<and> p_id p = p_id ann
          \<and> log_key l = (p_id ann, 0, setHours0 day1)
          \<and> checkInLogs s' = checkInLogs (serve_all strict_platform other_day1 store2) @ [l])"
proof -
  let ?ev = "\<lparr>e_eventId = 0, e_eventName = ''Rally'', e_county = ''R1'',
              e_constituency = None, e_ward = None, e_createdById = 1001\<rparr>"
  have ev: "findOneEvent strict_platform store1 (str (b_eventId body123)) = Inr (Some ?ev)"
    by (simp add: store1_eq sample_defs storage_defs request_defs)
  have acc2: "checkEventAccess ?ev delegate1" and acc3: "checkEventAccess ?ev owner1"
    by (simp_all add: sample_defs request_defs)
  have req2: "hasRequiredFields body123_corrected" and req3: "hasRequiredFields body123"
    by (simp_all add: hasRequiredFields_def body123_corrected_def sample_defs request_defs)
  have key2: "b_eventId body123_corrected = b_eventId body123"
             "b_idNumber body123_corrected = b_idNumber body123"
    by (simp_all add: body123_corrected_def)
  have ok2: "storable strict_platform body123_corrected"
    and ok3: "storable strict_platform body123"
    by (simp_all add: storable_def body123_corrected_def sample_defs storage_defs request_defs)
  have same_day: "setHours0 day0_later = setHours0 day0"
    by (simp add: day0_later_def sample_defs request_defs)
  have unrecorded: "(p_id ann, 0, setHours0 day1)
                      \<notin> set (log_keys (serve_all strict_platform other_day1 store2))"
    and other: "(3, 0, setHours0 day1)
                      \<in> set (log_keys (serve_all strict_platform other_day1 store2))"
    by (simp_all add: traffic_day1 day1_def ann_def setHours0_def)
  have eid: "e_eventId ?ev = 0" by simp
  note same = checkin_once_per_day
      [OF first_checkin ev refl acc2 req2 key2 ok2,
       where reqs = other_day0 and t = day0_later, unfolded eid]
  note later = checkin_once_per_day
      [OF first_checkin ev refl acc3 req3 refl refl ok3,
       where reqs = other_day1 and t = day1, unfolded eid]
  from same later first_checkin same_day unrecorded other
  show ?thesis
    by blast
qed

text \<open>
  C4, as stated, fails. The claim says that of concurrent attempts on one triple every
  attempt but the winner observes the AlreadyCheckedIn conflict. In the run \<open>race\<close> of
  two requests for the same person the responses for the triple are, in order, the 201
  of the winner and the 500 "Internal server error" of the loser, whose insert the
  unique index refused after its pre-check had passed.
\<close>

theorem race_loser_not_AlreadyCheckedIn:
  "responses_for (1, 0, 0) (fst (exec strict_platform race two_requests))
     = [(201, CheckedIn log_day0 ann), InternalError]
   \<and> InternalError \<noteq> AlreadyCheckedIn"
  by (simp add: race_run responses_for_def InternalError_def AlreadyCheckedIn_def)

text \<open>
  C4, amended. Take any store in which a triple is not yet recorded, any list of check-in
  requests at any stage, and any schedule interleaving their steps. Of the attempts on
  that triple that get a response, the first gets 201 and its row is in the final log
  table; every later one gets either the 400 AlreadyCheckedIn response (its pre-check
  saw the row) or the 500 "Internal server error" response (its insert was refused by
  the unique index). So exactly one attempt performs the transition, and no attempt is
  treated as a second success.
\<close>

theorem concurrent_checkins_one_winner:
  assumes "exec pf sched (s, ts) = (tr, final)"
      and "k \<notin> set (log_keys s)"
  shows "responses_for k tr = []
         \<or> (\<exists>l p rest. responses_for k tr = (201, CheckedIn l p) # rest
               \<and> log_key l = k \<and> l \<in> set (checkInLogs (fst final))
               \<and> set rest \<subseteq> {AlreadyCheckedIn, InternalError})"
  using exec_responses [OF assms(1), of k] assms(2)
  by (simp add: one_winner_def losses_only_def)

theorem concurrent_checkins_one_winner_witness:
  "(1, 0, 0) \<notin> set (log_keys store1)
   \<and> (\<exists>l p rest.
         responses_for (1, 0, 0) (fst (exec strict_platform race two_requests))
           = (201, CheckedIn l p) # rest
         \<and> log_key l = (1, 0, 0)
         \<and> l \<in> set (checkInLogs (fst (snd (exec strict_platform race two_requests))))
         \<and> set rest \<subseteq> {AlreadyCheckedIn, InternalError})"
proof -
  have unrecorded: "(1, 0, 0) \<notin> set (log_keys store1)"
    by (simp add: log_keys_def store1_eq)
  have run: "exec strict_platform race (store1, [Received owner1 body123, Received delegate1 body123])
               = (fst (exec strict_platform race two_requests),
                  snd (exec strict_platform race two_requests))"
    by (simp add: two_requests_def)
  from concurrent_checkins_one_winner [OF run unrecorded] unrecorded show ?thesis
    by (simp add: race_run responses_for_def)
qed

text \<open>
  C5. The access decision is a total, deterministic function of the event and the
  account alone (it takes no store and returns only a boolean): an ADMIN account is
  permitted iff the event was created by that account; a USER account is permitted iff
  its \<open>adminId\<close> is set and equals the event's creator; a USER account whose \<open>adminId\<close>
  is null is always denied. The code agrees with the rule as the specification words it
  on every event and account.
\<close>

theorem checkEventAccess_rule:
  "checkEventAccess ev (usr\<lparr>u_role := ADMIN\<rparr>) = (e_createdById ev = u_id usr)
   \<and> checkEventAccess ev (usr\<lparr>u_role := USER\<rparr>)
       = (u_adminId usr \<noteq> None \<and> Some (e_createdById ev) = u_adminId usr)
   \<and> \<not> checkEventAccess ev (usr\<lparr>u_role := USER, u_adminId := None\<rparr>)
   \<and> checkEventAccess ev usr
       = canAccess_spec (e_createdById ev) (u_role usr) (u_id usr) (u_adminId usr)"
proof -
  have spec: "checkEventAccess ev usr
       = canAccess_spec (e_createdById ev) (u_role usr) (u_id usr) (u_adminId usr)"
    by (cases "u_role usr"; cases "u_adminId usr") (auto simp: checkEventAccess_def)
  show ?thesis
    using spec by (simp add: checkEventAccess_def)
qed




text \<open>
  C7, as stated, fails. The claim says that for an event with county set, constituency
  unset and ward set the gateway is called with the county filter only. The handler
  tests constituency and ward independently of one another, so the ward is forwarded.
\<close>

theorem search_forwards_ward_without_constituency:
  "snd (search strict_platform no_match store_ward_only owner1 search123)
     = [(''123'', \<lparr>f_county = ''R'', f_constituency = None, f_ward = Some ''L''\<rparr>)]
   \<and> snd (search strict_platform no_match store_ward_only owner1 search123)
     \<noteq> [(''123'', \<lparr>f_county = ''R'', f_constituency = None, f_ward = None\<rparr>)]"
  by (simp add: search_def lookupFilters_def store_ward_only_eq search123_def no_match_def
      sample_defs storage_defs request_defs)

text \<open>
  C7, amended. For a lookup that reaches the filter step (both body fields present, the
  event found, access granted): when the event's county is empty the handler answers 400
  and never calls the gateway; otherwise it calls the gateway exactly once, with the
  identity number of the request and filters taken from the event alone: the county
  always, the constituency exactly when set on the event, and the ward exactly when set
  on the event, whether or not a constituency is set. In particular, for an event with
  county set, constituency unset and ward set, the gateway is called with county and
  ward.
\<close>

theorem search_filters_from_event:
  assumes "\<not> falsy (sb_eventId b)" and "\<not> falsy (sb_idNumber b)"
      and "findOneEvent pf s (str (sb_eventId b)) = Inr (Some ev)"
      and "checkEventAccess ev usr"
  shows "(e_county ev = [] \<longrightarrow>
            search pf lookupVoter s usr b
              = ((400, Notice ''Event must have a county to perform voter lookup''), []))
         \<and> (e_county ev \<noteq> [] \<longrightarrow>
            snd (search pf lookupVoter s usr b)
              = [(str (sb_idNumber b),
                  \<lparr>f_county = e_county ev, f_constituency = orNull (e_constituency ev),
                   f_ward = orNull (e_ward ev)\<rparr>)])"
  using assms
  by (auto simp: search_def lookupFilters_def orNull_def Let_def split: lookup.splits)

theorem search_filters_from_event_witness:
  "findOneEvent strict_platform store_ward_only (str (sb_eventId search123))
     = Inr (Some \<lparr>e_eventId = 0, e_eventName = ''Rally'', e_county = ''R'',
             e_constituency = None, e_ward = Some ''L'', e_createdById = 1001\<rparr>)
   \<and> snd (search strict_platform no_match store_ward_only owner1 search123)
       = [(''123'', \<lparr>f_county = ''R'', f_constituency = None, f_ward = Some ''L''\<rparr>)]"
proof -
  let ?ev = "\<lparr>e_eventId = 0, e_eventName = ''Rally'', e_county = ''R'',
              e_constituency = None, e_ward = Some ''L'', e_createdById = 1001\<rparr>"
  have fields: "\<not> falsy (sb_eventId search123)" "\<not> falsy (sb_idNumber search123)"
    by (simp_all add: search123_def request_defs)
  have found: "findOneEvent strict_platform store_ward_only (str (sb_eventId search123))
                 = Inr (Some ?ev)"
    by (simp add: store_ward_only_eq search123_def sample_defs storage_defs request_defs)
  have access: "checkEventAccess ?ev owner1"
    by (simp add: sample_defs request_defs)
  from search_filters_from_event [OF fields found access, of no_match] found show ?thesis
    by (simp add: search123_def request_defs)
qed

text \<open>
  C8. The handler answers 400 whenever a required field is missing (lemma
  \<open>checkin_missing_field\<close>), but it never checks that \<open>dateOfBirth\<close> parses: it
  passes \<open>new Date(dateOfBirth)\<close> to the storage layer as it is. For the body below,
  complete but with the date of birth "not-a-date", the response is not the 400
  validation error: with a database that refuses an Invalid Date it is the 500 of the
  \<open>catch\<close> block, with one that stores it the check-in succeeds and a participant
  with an Invalid Date is created. The route that lists check-ins by date does reject an
  unparsable date with 400 (line 346).
\<close>

theorem checkin_unparsable_dateOfBirth:
  "newDate strict_platform ''not-a-date'' = InvalidDate
   \<and> hasRequiredFields (body123\<lparr>b_dateOfBirth := Some ''not-a-date''\<rparr>)
   \<and> checkin strict_platform day0 store1 owner1 (body123\<lparr>b_dateOfBirth := Some ''not-a-date''\<rparr>)
       = (InternalError, store1)
   \<and> checkin lenient_platform day0 store1 owner1 (body123\<lparr>b_dateOfBirth := Some ''not-a-date''\<rparr>)
       = ((201, CheckedIn log_day0 (ann\<lparr>p_dateOfBirth := InvalidDate\<rparr>)),
          store2\<lparr>participants := [ann\<lparr>p_dateOfBirth := InvalidDate\<rparr>]\<rparr>)
   \<and> InternalError \<noteq> ValidationError"
  by (simp add: checkin_def findOrCreateParticipant_def hasRequiredFields_def store2_def
      store1_eq InternalError_def ValidationError_def lenient_platform_def sample_defs
      storage_defs request_defs)

text \<open>
  C9. The handler refuses every account but the creating owner with 403 (lemma
  \<open>deleteEvent_forbidden\<close>) and deletes an event without participants together with
  its logs (lemma \<open>deleteEvent_without_participants\<close>). But \<open>Participant.event\<close>
  carries no \<open>onDelete: 'CASCADE'\<close>, unlike the relations of \<open>CheckInLog\<close>: once a
  participant has checked in, the delete by the creating owner is refused by the
  database, the handler answers 500, and event, participant and log all remain.
\<close>

theorem deleteEvent_refused_while_participants_exist:
  "checkin strict_platform day0 store1 owner1 body123 = ((201, CheckedIn log_day0 ann), store2)
   \<and> map e_createdById (events store2) = [u_id owner1]
   \<and> u_role owner1 = ADMIN
   \<and> deleteEvent strict_platform store2 owner1 event0_id
       = ((500, Message ''Internal server error''), store2)
   \<and> participants store2 = [ann] \<and> checkInLogs store2 = [log_day0]"
  by (simp add: first_checkin)
     (simp add: deleteEvent_def event0_id_def store2_def store1_eq sample_defs storage_defs
        request_defs)

text \<open>
  C10, as stated, fails. The claim gives 404 to every check-in request whose eventId
  matches no event. The required-field check of line 133 runs before the event lookup:
  the request below names a well-formed eventId that matches no event and lacks a name,
  and it is answered 400.
\<close>

theorem checkin_unknown_event_missing_field:
  "findOneEvent strict_platform store1 unknown_id = Inr None
   \<and> checkin strict_platform day0 store1 owner1
        (body123\<lparr>b_eventId := Some unknown_id, b_name := None\<rparr>)
       = (ValidationError, store1)
   \<and> fst ValidationError = 400
   \<and> ValidationError \<noteq> NotFound"
  by (simp add: checkin_def unknown_id_def ValidationError_def NotFound_def store1_eq
      sample_defs storage_defs request_defs)

text \<open>
  C10, amended. A check-in request that carries all required fields and whose eventId
  is a uuid that matches no event (the lookup returns null) gets the 404 "Event not
  found" response, and the store is returned as it was: no participant row is created
  or updated and no log row is written. (Whenever the lookup does not return an event
  the store is left as it was, lemma \<open>checkin_without_event_changes_nothing\<close>.)
\<close>

theorem checkin_unknown_event:
  assumes "hasRequiredFields b"
      and "findOneEvent pf s (str (b_eventId b)) = Inr None"
  shows "checkin pf now s usr b = (NotFound, s) \<and> fst NotFound = 404"
  using assms by (simp add: checkin_def hasRequiredFields_def NotFound_def)

theorem checkin_unknown_event_witness:
  "hasRequiredFields (body123\<lparr>b_eventId := Some unknown_id\<rparr>)
   \<and> findOneEvent strict_platform store1 unknown_id = Inr None
   \<and> checkin strict_platform day0 store1 owner1 (body123\<lparr>b_eventId := Some unknown_id\<rparr>)
       = ((404, Message ''Event not found''), store1)"
proof -
  let ?b = "body123\<lparr>b_eventId := Some unknown_id\<rparr>"
  have req: "hasRequiredFields ?b"
    by (simp add: hasRequiredFields_def unknown_id_def sample_defs request_defs)
  have unknown: "findOneEvent strict_platform store1 (str (b_eventId ?b)) = Inr None"
    by (simp add: unknown_id_def store1_eq sample_defs storage_defs request_defs)
  from checkin_unknown_event [OF req unknown, of day0 owner1] req unknown
  show ?thesis
    by (simp add: NotFound_def str_def)
qed

end
